theory Spec2Isabelle
  imports Main
begin

section \<open>C strings, faults and the scratch buffer\<close>

text \<open>
  The parser of \<^verbatim>\<open>ATCmdParser.c\<close> works on C strings and on one fixed array,
  \<^verbatim>\<open>char _buffer[AT_BUFFER_SIZE]\<close>. A C string is a \<^typ>\<open>string\<close> followed by its
  terminator; an index past an array is undefined behaviour in C and is a value of
  type \<open>fault\<close> here, so that every out-of-range access is a branch of the model.
  The debug output of \<^verbatim>\<open>debug_if\<close> has no effect on the parser and is left out.
\<close>

definition NUL :: char where
  "NUL = CHR 0x00"

definition LF :: char where
  "LF = CHR 0x0A"

definition AT_BUFFER_SIZE :: nat where
  "AT_BUFFER_SIZE = 2048"

datatype fault =
    Buffer_overrun nat
  | Dummy_pos_overrun nat
  | Arg_list_overrun nat
  | Data_overrun nat
  | Negative_index
  | Bad_memcpy

text \<open>\<open>c_at s i\<close> is \<^verbatim>\<open>s[i]\<close> for a C string \<open>s\<close>: the terminator sits at index \<open>length s\<close>.\<close>

definition c_at :: "string \<Rightarrow> nat \<Rightarrow> char" where
  "c_at s i = (if i < length s then s ! i else NUL)"

definition strlen :: "string \<Rightarrow> nat" where
  "strlen s = length (takeWhile (\<lambda>c. c \<noteq> NUL) s)"

section \<open>The session and its collaborators\<close>

text \<open>
  \<^verbatim>\<open>struct oob\<close>: the \<^verbatim>\<open>next\<close> pointer is the tail of the list that holds the entry.
  A callback is a code address: a value of the type \<open>'h\<close>, \<open>None\<close> for the null
  pointer, and what the code behind it does is given by a table of type \<open>'h handlers\<close>.
\<close>

type_synonym at_buffer = "nat \<Rightarrow> char"

record 'h oob =
  oob_len :: nat
  oob_prefix :: string
  oob_cb :: "'h option"

text \<open>
  \<^verbatim>\<open>ATParser\<close>, without \<^verbatim>\<open>ops\<close>: the transport behind it is the \<open>world\<close> below.
  \<open>unprocessed_data\<close> says whether the sink pointer is set.
\<close>

record 'h ATParser =
  oobs :: "'h oob list"
  unprocessed_data :: bool
  character_timeout :: int
  dbg_on :: bool
  output_delimiter :: string
  output_delim_size :: int
  input_delimiter :: string
  input_delim_size :: int
  buffer :: at_buffer

text \<open>
  What the parser calls and cannot see into. \<open>rx\<close> is the script of the transport: the
  results of the successive calls of \<^verbatim>\<open>ops->get\<close>, \<open>Some b\<close> for a value \<open>c \<ge> 0\<close>
  with \<open>b = (char)c\<close> and \<open>None\<close> for a negative one (no byte within the timeout);
  once the script is used up the peer is silent and every read times out. \<open>readable\<close>
  is what \<^verbatim>\<open>ops->readable()\<close> reports. \<open>trace\<close> lists the calls made to code
  outside the file, in order: an OOB callback, \<^verbatim>\<open>vsscanf\<close> with its data and format
  strings, the unprocessed-data sink with its bytes and length.
\<close>

datatype 'h event =
    Oob_called 'h
  | Captured string string
  | Unprocessed string nat

record 'h world =
  rx :: "char option list"
  readable :: bool
  trace :: "'h event list"

text \<open>
  A callback receives the session. It may change it and may read bytes from the
  transport: it returns the session as it leaves it and the number of bytes it read.
  It has no access to the local variables of the function that called it.
\<close>

type_synonym 'h handlers = "'h \<Rightarrow> 'h ATParser \<Rightarrow> char option list \<Rightarrow> 'h ATParser \<times> nat"

text \<open>
  \<^verbatim>\<open>sscanf(data, format, &count)\<close> of the C library, for a format whose only storing
  conversion is a final \<^verbatim>\<open>%n\<close>: the value stored into \<open>count\<close>, or \<open>None\<close> when
  the scan stops before it reaches \<^verbatim>\<open>%n\<close> and \<open>count\<close> keeps its value.
\<close>

type_synonym scanner = "string \<Rightarrow> string \<Rightarrow> int option"

definition store :: "nat \<Rightarrow> char \<Rightarrow> at_buffer \<Rightarrow> fault + at_buffer" where
  "store k c buf = (if k < AT_BUFFER_SIZE then Inr (buf(k := c)) else Inl (Buffer_overrun k))"

fun store_bytes :: "nat \<Rightarrow> char list \<Rightarrow> at_buffer \<Rightarrow> fault + at_buffer" where
  "store_bytes k [] buf = Inr buf"
| "store_bytes k (c # cs) buf =
     (case store k c buf of Inl f \<Rightarrow> Inl f | Inr buf1 \<Rightarrow> store_bytes (Suc k) cs buf1)"

text \<open>The C string that starts at \<^verbatim>\<open>_buffer + k\<close>.\<close>

function c_string_from :: "at_buffer \<Rightarrow> nat \<Rightarrow> fault + string" where
  "c_string_from buf k =
     (if k < AT_BUFFER_SIZE then
        (if buf k = NUL then Inr []
         else (case c_string_from buf (Suc k) of Inl f \<Rightarrow> Inl f | Inr s \<Rightarrow> Inr (buf k # s)))
      else Inl (Buffer_overrun k))"
  by pat_completeness auto
termination
  by (relation "measure (\<lambda>(buf, k). AT_BUFFER_SIZE - k)") auto

declare c_string_from.simps [simp del]

definition ATCmdParser_add_oob :: "'h ATParser \<Rightarrow> string \<Rightarrow> 'h option \<Rightarrow> 'h ATParser" where
  "ATCmdParser_add_oob at prefix cb =
     at\<lparr>oobs := \<lparr>oob_len = strlen prefix, oob_prefix = prefix, oob_cb = cb\<rparr> # oobs at\<rparr>"

section \<open>The pattern rewriter\<close>

text \<open>
  The first loop of \<^verbatim>\<open>ATCmdParser_vrecv\<close> (\<^verbatim>\<open>while (response[i])\<close>), from index
  \<open>i\<close> on. It writes to \<^verbatim>\<open>_buffer[offset++]\<close> only, so what it does to the buffer is
  the list of bytes it emits, in order; the result also holds the final \<open>i\<close> and
  \<open>whole_line_wanted\<close>.
\<close>

function rewrite_from :: "string \<Rightarrow> nat \<Rightarrow> string \<times> nat \<times> bool" where
  "rewrite_from response i =
     (if c_at response i \<noteq> NUL then
        (if c_at response i = CHR ''%'' \<and> c_at response (i + 1) \<noteq> CHR ''%''
            \<and> c_at response (i + 1) \<noteq> CHR ''*'' then
           (case rewrite_from response (i + 1) of
              (out, i', whole) \<Rightarrow> (CHR ''%'' # CHR ''*'' # out, i', whole))
         else
           (if c_at response i = LF
               \<and> \<not> (i + 1 \<ge> 3 \<and> c_at response (i + 1 - 3) = CHR ''[''
                      \<and> c_at response (i + 1 - 2) = CHR ''^'') then
              ([c_at response i], i + 1, True)
            else
              (case rewrite_from response (i + 1) of
                 (out, i', whole) \<Rightarrow> (c_at response i # out, i', whole))))
      else ([], i, False))"
  by pat_completeness auto
termination
  by (relation "measure (\<lambda>(response, i). length response - i)")
     (auto simp: c_at_def NUL_def split: if_splits)

declare rewrite_from.simps [simp del]

text \<open>
  The rewritten line, \<^verbatim>\<open>%n\<close> and the terminator go to the front of the buffer;
  \<open>offset\<close> is the index after the terminator.
\<close>

definition stage_template ::
  "string \<Rightarrow> at_buffer \<Rightarrow> fault + (nat \<times> nat \<times> bool \<times> at_buffer)" where
  "stage_template response buf =
     (case rewrite_from response 0 of
        (out, i, whole_line_wanted) \<Rightarrow>
          (case store_bytes 0 (out @ [CHR ''%'', CHR ''n'', NUL]) buf of
             Inl f \<Rightarrow> Inl f
           | Inr buf1 \<Rightarrow> Inr (i, length out + 3, whole_line_wanted, buf1)))"

section \<open>The streaming matcher\<close>

text \<open>\<^verbatim>\<open>_buffer[offset + j++] = c; _buffer[offset + j] = 0;\<close>\<close>

definition append_char ::
  "nat \<Rightarrow> char \<Rightarrow> nat \<Rightarrow> at_buffer \<Rightarrow> fault + (nat \<times> at_buffer)" where
  "append_char offset c j buf =
     (case store (offset + j) c buf of
        Inl f \<Rightarrow> Inl f
      | Inr buf1 \<Rightarrow>
          (case store (offset + (j + 1)) NUL buf1 of
             Inl f \<Rightarrow> Inl f
           | Inr buf2 \<Rightarrow> Inr (j + 1, buf2)))"

text \<open>
  The filler byte \<^verbatim>\<open>'x'\<close> for a line break right after a colon, and then the byte
  received. \<open>dummy_pos\<close> is \<^verbatim>\<open>int dummy_pos[20]\<close>.
\<close>

definition accumulate ::
  "nat \<Rightarrow> char \<Rightarrow> char \<Rightarrow> nat \<Rightarrow> nat \<Rightarrow> nat list \<Rightarrow> at_buffer
     \<Rightarrow> fault + (nat \<times> nat \<times> nat list \<times> at_buffer)" where
  "accumulate offset c in_prev j dummy dummy_pos buf =
     (if c = LF \<and> in_prev = CHR '':'' then
        (if dummy < length dummy_pos then
           (case store (offset + j) (CHR ''x'') buf of
              Inl f \<Rightarrow> Inl f
            | Inr buf1 \<Rightarrow>
                (case append_char offset c (j + 1) buf1 of
                   Inl f \<Rightarrow> Inl f
                 | Inr (j2, buf2) \<Rightarrow> Inr (j2, dummy + 1, dummy_pos[dummy := j], buf2)))
         else Inl (Dummy_pos_overrun dummy))
      else
        (case append_char offset c j buf of
           Inl f \<Rightarrow> Inl f
         | Inr (j1, buf1) \<Rightarrow> Inr (j1, dummy, dummy_pos, buf1)))"

text \<open>\<^verbatim>\<open>memcmp(p, _buffer + off, n) == 0\<close> for a C string \<open>p\<close>.\<close>

definition memcmp_eq :: "string \<Rightarrow> at_buffer \<Rightarrow> nat \<Rightarrow> nat \<Rightarrow> bool" where
  "memcmp_eq p buf off n = (map (c_at p) [0..<n] = map buf [off..<off + n])"

text \<open>
  The walk over the registry, in \<^verbatim>\<open>ATCmdParser_vrecv\<close> with the candidate at
  \<open>off = offset\<close> and in \<^verbatim>\<open>ATCmdParser_process_oob\<close> with \<open>off = 0\<close>: the first
  entry whose length is the candidate's and whose bytes are the candidate's.
\<close>

fun oob_scan :: "'h oob list \<Rightarrow> at_buffer \<Rightarrow> nat \<Rightarrow> nat \<Rightarrow> 'h oob option" where
  "oob_scan [] buf off j = None"
| "oob_scan (oob # next) buf off j =
     (if j = oob_len oob \<and> memcmp_eq (oob_prefix oob) buf off (oob_len oob) then Some oob
      else oob_scan next buf off j)"

text \<open>\<^verbatim>\<open>if (oob->cb) oob->cb(at);\<close>\<close>

definition invoke_cb ::
  "'h handlers \<Rightarrow> 'h oob \<Rightarrow> 'h ATParser \<Rightarrow> 'h world \<Rightarrow> 'h ATParser \<times> 'h world" where
  "invoke_cb cbs oob at w =
     (case oob_cb oob of
        None \<Rightarrow> (at, w)
      | Some h \<Rightarrow>
          (case cbs h at (rx w) of
             (at1, n) \<Rightarrow> (at1, w\<lparr>rx := drop n (rx w), trace := trace w @ [Oob_called h]\<rparr>)))"

text \<open>
  The verification pass: \<open>count\<close> starts at \<open>-1\<close> and \<^verbatim>\<open>sscanf\<close> runs unless the
  line wants its line break and \<open>c\<close> is not one.
\<close>

definition verify :: "scanner \<Rightarrow> bool \<Rightarrow> char \<Rightarrow> nat \<Rightarrow> at_buffer \<Rightarrow> fault + int" where
  "verify sscanf_n whole_line_wanted c offset buf =
     (if whole_line_wanted \<and> c \<noteq> LF then Inr (- 1)
      else
        (case c_string_from buf offset of
           Inl f \<Rightarrow> Inl f
         | Inr dp \<Rightarrow>
             (case c_string_from buf 0 of
                Inl f \<Rightarrow> Inl f
              | Inr fmt \<Rightarrow>
                  Inr (case sscanf_n dp fmt of None \<Rightarrow> - 1 | Some count \<Rightarrow> count))))"

text \<open>\<^verbatim>\<open>memcpy(_buffer + dst, _buffer + src, n)\<close>, copying upwards.\<close>

fun buf_memcpy :: "at_buffer \<Rightarrow> nat \<Rightarrow> nat \<Rightarrow> nat \<Rightarrow> fault + at_buffer" where
  "buf_memcpy buf dst src 0 = Inr buf"
| "buf_memcpy buf dst src (Suc n) =
     (if src < AT_BUFFER_SIZE then
        (case store dst (buf src) buf of
           Inl f \<Rightarrow> Inl f
         | Inr buf1 \<Rightarrow> buf_memcpy buf1 (Suc dst) (Suc src) n)
      else Inl (Buffer_overrun src))"

text \<open>
  \<^verbatim>\<open>for (int k = 0; k < dummy; k++, j--)\<close>: the removal of the filler bytes. A
  negative position or length, which the C code would hand to \<^verbatim>\<open>memcpy\<close>, is a fault.
\<close>

function remove_dummies ::
  "nat \<Rightarrow> nat \<Rightarrow> nat \<Rightarrow> nat \<Rightarrow> nat list \<Rightarrow> at_buffer \<Rightarrow> fault + (nat \<times> at_buffer)" where
  "remove_dummies offset k dummy j dummy_pos buf =
     (if k < dummy then
        (if k < length dummy_pos then
           (if k \<le> dummy_pos ! k \<and> dummy_pos ! k - k + 1 \<le> j then
              (case buf_memcpy buf (offset + (dummy_pos ! k - k)) (offset + (dummy_pos ! k - k) + 1)
                      (j - (dummy_pos ! k - k) - 1) of
                 Inl f \<Rightarrow> Inl f
               | Inr buf1 \<Rightarrow>
                   remove_dummies offset (k + 1) dummy (j - 1)
                     (dummy_pos[k := dummy_pos ! k - k]) buf1)
            else Inl Bad_memcpy)
         else Inl (Dummy_pos_overrun k))
      else Inr (j, buf))"
  by pat_completeness auto
termination
  by (relation "measure (\<lambda>(offset, k, dummy, j, dummy_pos, buf). dummy - k)") auto

declare remove_dummies.simps [simp del]

text \<open>
  A line has matched: the fillers go, the line's own text replaces the template, and
  \<^verbatim>\<open>vsscanf\<close> is called with the candidate and that text. The result is the buffer
  and the two strings \<^verbatim>\<open>vsscanf\<close> receives.
\<close>

definition finish_line ::
  "string \<Rightarrow> nat \<Rightarrow> nat \<Rightarrow> nat \<Rightarrow> nat \<Rightarrow> nat list \<Rightarrow> at_buffer
     \<Rightarrow> fault + (at_buffer \<times> string \<times> string)" where
  "finish_line response i offset j dummy dummy_pos buf =
     (case remove_dummies offset 0 dummy j dummy_pos buf of
        Inl f \<Rightarrow> Inl f
      | Inr (j1, buf1) \<Rightarrow>
          (case store_bytes 0 (take i response @ [NUL]) buf1 of
             Inl f \<Rightarrow> Inl f
           | Inr buf2 \<Rightarrow>
               (case c_string_from buf2 offset of
                  Inl f \<Rightarrow> Inl f
                | Inr data \<Rightarrow>
                    (case c_string_from buf2 0 of
                       Inl f \<Rightarrow> Inl f
                     | Inr fmt \<Rightarrow> Inr (buf2, data, fmt)))))"

text \<open>
  One pass through the body of \<^verbatim>\<open>while (true)\<close> once a byte \<open>c\<close> has arrived, up to
  the point where the callback would be called or the next pass would start.
\<close>

datatype 'h step =
    Step_fault fault
  | Oob_detected "'h oob" at_buffer
  | Line_matched at_buffer string string
  | Candidate_reset "nat list" at_buffer
  | Keep_reading nat nat "nat list" at_buffer

definition recv_step ::
  "scanner \<Rightarrow> 'h oob list \<Rightarrow> string \<Rightarrow> nat \<Rightarrow> nat \<Rightarrow> bool \<Rightarrow> nat \<Rightarrow> nat \<Rightarrow> nat list
     \<Rightarrow> char \<Rightarrow> char \<Rightarrow> at_buffer \<Rightarrow> 'h step" where
  "recv_step sscanf_n registry response i offset whole_line_wanted j dummy dummy_pos in_prev c buf =
     (case accumulate offset c in_prev j dummy dummy_pos buf of
        Inl f \<Rightarrow> Step_fault f
      | Inr (j1, dummy1, dummy_pos1, buf1) \<Rightarrow>
          (case oob_scan registry buf1 offset j1 of
             Some oob \<Rightarrow> Oob_detected oob buf1
           | None \<Rightarrow>
               (case verify sscanf_n whole_line_wanted c offset buf1 of
                  Inl f \<Rightarrow> Step_fault f
                | Inr count \<Rightarrow>
                    if count = int j1 then
                      (case finish_line response i offset j1 dummy1 dummy_pos1 buf1 of
                         Inl f \<Rightarrow> Step_fault f
                       | Inr (buf2, data, fmt) \<Rightarrow> Line_matched buf2 data fmt)
                    else if c = LF \<or> j1 + 1 \<ge> AT_BUFFER_SIZE - offset then
                      Candidate_reset dummy_pos1 buf1
                    else Keep_reading j1 dummy1 dummy_pos1 buf1)))"

text \<open>
  The four ways out of \<^verbatim>\<open>ATCmdParser_vrecv\<close>: \<^verbatim>\<open>return true\<close>, the
  \<^verbatim>\<open>return false\<close> after a read that timed out, the \<^verbatim>\<open>return false\<close> under
  \<^verbatim>\<open>if (_aborted)\<close>, and undefined behaviour.
\<close>

datatype recv_exit = Success | Timeout | Aborted | Fault fault

fun returned :: "recv_exit \<Rightarrow> bool option" where
  "returned Success = Some True"
| "returned Timeout = Some False"
| "returned Aborted = Some False"
| "returned (Fault f) = None"

text \<open>
  \<open>recv_lines\<close> is the code from the label \<^verbatim>\<open>restart\<close> or from the head of
  \<^verbatim>\<open>while (response[0])\<close> on, \<open>recv_loop\<close> the code from the head of
  \<^verbatim>\<open>while (true)\<close> on. \<open>response\<close> is the parameter of that name, which
  \<^verbatim>\<open>response += i\<close> moves forward; \<open>in_prev\<close> and \<open>aborted\<close> are the locals
  \<^verbatim>\<open>_in_prev\<close> and \<^verbatim>\<open>_aborted\<close>. \<^verbatim>\<open>goto restart\<close> is the call of \<open>recv_lines\<close>
  with \<open>aborted = False\<close>, the assignment that follows the label.
\<close>

function
  recv_lines ::
    "scanner \<Rightarrow> 'h handlers \<Rightarrow> string \<Rightarrow> char \<Rightarrow> bool \<Rightarrow> 'h ATParser \<Rightarrow> 'h world
       \<Rightarrow> recv_exit \<times> 'h ATParser \<times> 'h world"
and
  recv_loop ::
    "scanner \<Rightarrow> 'h handlers \<Rightarrow> string \<Rightarrow> nat \<Rightarrow> nat \<Rightarrow> bool \<Rightarrow> nat \<Rightarrow> nat \<Rightarrow> nat list
       \<Rightarrow> char \<Rightarrow> bool \<Rightarrow> 'h ATParser \<Rightarrow> 'h world
       \<Rightarrow> recv_exit \<times> 'h ATParser \<times> 'h world"
where
  "recv_lines sscanf_n cbs response in_prev aborted at w =
     (if c_at response 0 \<noteq> NUL then
        (case stage_template response (buffer at) of
           Inl f \<Rightarrow> (Fault f, at, w)
         | Inr (i, offset, whole_line_wanted, buf) \<Rightarrow>
             recv_loop sscanf_n cbs response i offset whole_line_wanted 0 0 (replicate 20 0)
               in_prev aborted (at\<lparr>buffer := buf\<rparr>) w)
      else (Success, at, w))"
| "recv_loop sscanf_n cbs response i offset whole_line_wanted j dummy dummy_pos
       in_prev aborted at w =
     (case rx w of
        [] \<Rightarrow> (Timeout, at, w)
      | None # rest \<Rightarrow> (Timeout, at, w\<lparr>rx := rest\<rparr>)
      | Some c # rest \<Rightarrow>
          (case recv_step sscanf_n (oobs at) response i offset whole_line_wanted j dummy
                  dummy_pos in_prev c (buffer at) of
             Step_fault f \<Rightarrow> (Fault f, at, w\<lparr>rx := rest\<rparr>)
           | Oob_detected oob buf1 \<Rightarrow>
               (case invoke_cb cbs oob (at\<lparr>buffer := buf1\<rparr>) (w\<lparr>rx := rest\<rparr>) of
                  (at2, w2) \<Rightarrow>
                    if aborted then (Aborted, at2, w2)
                    else recv_lines sscanf_n cbs response c False at2 w2)
           | Line_matched buf2 data fmt \<Rightarrow>
               recv_lines sscanf_n cbs (drop i response) c aborted (at\<lparr>buffer := buf2\<rparr>)
                 (w\<lparr>rx := rest, trace := trace w @ [Captured data fmt]\<rparr>)
           | Candidate_reset dummy_pos1 buf1 \<Rightarrow>
               recv_loop sscanf_n cbs response i offset whole_line_wanted 0 0 dummy_pos1
                 c aborted (at\<lparr>buffer := buf1\<rparr>) (w\<lparr>rx := rest\<rparr>)
           | Keep_reading j1 dummy1 dummy_pos1 buf1 \<Rightarrow>
               recv_loop sscanf_n cbs response i offset whole_line_wanted j1 dummy1 dummy_pos1
                 c aborted (at\<lparr>buffer := buf1\<rparr>) (w\<lparr>rx := rest\<rparr>)))"
  by pat_completeness auto
termination
  by (relation "measure (\<lambda>x. case x of
          Inl (s, cbs, r, p, a, at, w) \<Rightarrow> 2 * length (rx w) + 1
        | Inr (s, cbs, r, i, off, wl, j, d, dp, p, a, at, w) \<Rightarrow> 2 * length (rx w))")
     (auto simp: invoke_cb_def split: option.splits prod.splits)

declare recv_lines.simps [simp del] recv_loop.simps [simp del]

definition ATCmdParser_vrecv ::
  "scanner \<Rightarrow> 'h handlers \<Rightarrow> 'h ATParser \<Rightarrow> 'h world \<Rightarrow> string
     \<Rightarrow> recv_exit \<times> 'h ATParser \<times> 'h world" where
  "ATCmdParser_vrecv sscanf_n cbs at w response =
     recv_lines sscanf_n cbs response NUL False at w"

section \<open>Raw reads\<close>

text \<open>
  \<^verbatim>\<open>ATCmdParser_read\<close>: \<open>data\<close> is the caller's array, \<open>sz\<close> the parameter
  \<^verbatim>\<open>size\<close>. The result is the returned value, the array and the world.
\<close>

function read_loop ::
  "int \<Rightarrow> nat \<Rightarrow> char list \<Rightarrow> 'h world \<Rightarrow> fault + (int \<times> char list \<times> 'h world)" where
  "read_loop sz i data w =
     (if int i < sz then
        (case rx w of
           [] \<Rightarrow> Inr (- 1, data, w)
         | None # rest \<Rightarrow> Inr (- 1, data, w\<lparr>rx := rest\<rparr>)
         | Some c # rest \<Rightarrow>
             (if i < length data then read_loop sz (i + 1) (data[i := c]) (w\<lparr>rx := rest\<rparr>)
              else Inl (Data_overrun i)))
      else Inr (int i, data, w))"
  by pat_completeness auto
termination
  by (relation "measure (\<lambda>(sz, i, data, w). length (rx w))") auto

declare read_loop.simps [simp del]

definition ATCmdParser_read ::
  "char list \<Rightarrow> int \<Rightarrow> 'h world \<Rightarrow> fault + (int \<times> char list \<times> 'h world)" where
  "ATCmdParser_read data sz w = read_loop sz 0 data w"

section \<open>The idle poller\<close>

text \<open>
  The flush test of \<^verbatim>\<open>ATCmdParser_process_oob\<close>:
  \<^verbatim>\<open>i + 1 >= AT_BUFFER_SIZE || strcmp(&_buffer[i - _input_delim_size], _input_delimiter) == 0\<close>.
  With fewer bytes than the delimiter has, the index is negative and the read starts
  before the array.
\<close>

definition delimiter_seen :: "'h ATParser \<Rightarrow> nat \<Rightarrow> at_buffer \<Rightarrow> fault + bool" where
  "delimiter_seen at i buf =
     (if i + 1 \<ge> AT_BUFFER_SIZE then Inr True
      else if int i - input_delim_size at < 0 then Inl Negative_index
      else
        (case c_string_from buf (nat (int i - input_delim_size at)) of
           Inl f \<Rightarrow> Inl f
         | Inr s \<Rightarrow> Inr (s = takeWhile (\<lambda>c. c \<noteq> NUL) (input_delimiter at))))"

datatype 'h poll =
    Poll_fault fault
  | Poll_oob "'h oob" at_buffer
  | Poll_flush nat at_buffer
  | Poll_more nat at_buffer

definition process_step :: "'h ATParser \<Rightarrow> nat \<Rightarrow> char \<Rightarrow> 'h poll" where
  "process_step at i c =
     (case append_char 0 c i (buffer at) of
        Inl f \<Rightarrow> Poll_fault f
      | Inr (i1, buf1) \<Rightarrow>
          (case oob_scan (oobs at) buf1 0 i1 of
             Some oob \<Rightarrow> Poll_oob oob buf1
           | None \<Rightarrow>
               (case delimiter_seen at i1 buf1 of
                  Inl f \<Rightarrow> Poll_fault f
                | Inr flush \<Rightarrow> if flush then Poll_flush i1 buf1 else Poll_more i1 buf1)))"

function process_loop ::
  "'h handlers \<Rightarrow> nat \<Rightarrow> 'h ATParser \<Rightarrow> 'h world \<Rightarrow> (fault + bool) \<times> 'h ATParser \<times> 'h world" where
  "process_loop cbs i at w =
     (case rx w of
        [] \<Rightarrow> (Inr False, at, w)
      | None # rest \<Rightarrow> (Inr False, at, w\<lparr>rx := rest\<rparr>)
      | Some c # rest \<Rightarrow>
          (case process_step at i c of
             Poll_fault f \<Rightarrow> (Inl f, at, w\<lparr>rx := rest\<rparr>)
           | Poll_oob oob buf1 \<Rightarrow>
               (case invoke_cb cbs oob (at\<lparr>buffer := buf1\<rparr>) (w\<lparr>rx := rest\<rparr>) of
                  (at2, w2) \<Rightarrow> (Inr True, at2, w2))
           | Poll_flush i1 buf1 \<Rightarrow>
               process_loop cbs 0 (at\<lparr>buffer := buf1\<rparr>)
                 (w\<lparr>rx := rest,
                    trace := trace w @
                      (if unprocessed_data at then [Unprocessed (map buf1 [0..<i1]) i1] else [])\<rparr>)
           | Poll_more i1 buf1 \<Rightarrow>
               process_loop cbs i1 (at\<lparr>buffer := buf1\<rparr>) (w\<lparr>rx := rest\<rparr>)))"
  by pat_completeness auto
termination
  by (relation "measure (\<lambda>(cbs, i, at, w). length (rx w))") auto

declare process_loop.simps [simp del]

definition ATCmdParser_process_oob ::
  "'h handlers \<Rightarrow> 'h ATParser \<Rightarrow> 'h world \<Rightarrow> (fault + bool) \<times> 'h ATParser \<times> 'h world" where
  "ATCmdParser_process_oob cbs at w =
     (if \<not> readable w then (Inr False, at, w) else process_loop cbs 0 at w)"

section \<open>Example collaborators\<close>

text \<open>
  What the C standard says \<^verbatim>\<open>sscanf\<close> does with a format made of ordinary
  characters, white space and a final \<^verbatim>\<open>%n\<close>: an ordinary character matches itself,
  white space in the format matches any run of white space, also an empty one, and
  \<^verbatim>\<open>%n\<close> stores the number of characters read so far. It serves the worked
  examples, whose formats have no other conversion.
\<close>

definition isspace :: "char \<Rightarrow> bool" where
  "isspace c =
     (c = CHR '' '' \<or> c = CHR 0x09 \<or> c = CHR 0x0A \<or> c = CHR 0x0B \<or> c = CHR 0x0C \<or> c = CHR 0x0D)"

fun scan_literal :: "string \<Rightarrow> string \<Rightarrow> nat \<Rightarrow> int option" where
  "scan_literal d [] n = None"
| "scan_literal d (f # fs) n =
     (if f = CHR ''%'' then (if fs = ''n'' then Some (int n) else None)
      else if isspace f then
        scan_literal (dropWhile isspace d) fs (n + length (takeWhile isspace d))
      else
        (case d of
           [] \<Rightarrow> None
         | x # xs \<Rightarrow> if x = f then scan_literal xs fs (n + 1) else None))"

definition sscanf_literal :: scanner where
  "sscanf_literal d fmt = scan_literal d fmt 0"

text \<open>A session as \<^verbatim>\<open>ATCmdParser_init\<close> leaves it, with a line feed as input delimiter.\<close>

definition idle_parser :: "nat ATParser" where
  "idle_parser =
     \<lparr>oobs = [], unprocessed_data = False, character_timeout = 0, dbg_on = False,
      output_delimiter = [CHR 0x0D], output_delim_size = 1,
      input_delimiter = [LF], input_delim_size = 1,
      buffer = (\<lambda>_. NUL)\<rparr>"

text \<open>Callbacks that leave the session as it is and read nothing.\<close>

definition quiet_handlers :: "nat handlers" where
  "quiet_handlers h at pending = (at, 0)"

definition bytes :: "string \<Rightarrow> char option list" where
  "bytes s = map Some s"

section \<open>ATCmdParser\_analyse\_args\<close>

text \<open>
  \<^verbatim>\<open>memcpy(&m[dst], &m[src], n)\<close> on one array, copying upwards byte by byte. The source
  calls it with \<open>src = dst + 1\<close>.
\<close>

fun memcpy_fwd :: "char list \<Rightarrow> nat \<Rightarrow> nat \<Rightarrow> nat \<Rightarrow> char list" where
  "memcpy_fwd m dst src 0 = m"
| "memcpy_fwd m dst src (Suc n) = memcpy_fwd (m[dst := m ! src]) (Suc dst) (Suc src) n"

definition c_string_at :: "char list \<Rightarrow> nat \<Rightarrow> string" where
  "c_string_at m p = takeWhile (\<lambda>c. c \<noteq> NUL) (drop p m)"

text \<open>
  The \<^verbatim>\<open>for (int i = 0; i <= len; i++)\<close> loop of \<^verbatim>\<open>ATCmdParser_analyse_args\<close>.
  \<open>args\<close> is the array (text and terminator), \<open>arg_list\<close> the caller's array of
  pointers, each pointer an index into \<open>args\<close>. \<open>list_size\<close> is what the caller
  says the capacity of \<open>arg_list\<close> is; the real capacity is \<open>length arg_list\<close>.
\<close>

function analyse_loop ::
  "nat \<Rightarrow> int \<Rightarrow> nat \<Rightarrow> char \<Rightarrow> nat \<Rightarrow> nat list \<Rightarrow> char list
     \<Rightarrow> fault + (nat \<times> nat list \<times> char list)" where
  "analyse_loop len list_size i in_prev arg_num arg_list args =
     (if i \<le> len then
        (if args ! i = CHR '','' then
           (if in_prev = CHR 0x5C then
              (let args1 = args[i - i := CHR '',''];
                   args2 = memcpy_fwd args1 i (i + 1) (len - (i + 1))
               in analyse_loop len list_size (i + 1) (args2 ! i) arg_num arg_list args2)
            else
              (let args1 = args[i := NUL] in
               if arg_num < length arg_list then
                 (let arg_list1 = arg_list[arg_num := i + 1]; arg_num1 = arg_num + 1 in
                  if int arg_num1 > list_size then Inr (arg_num1, arg_list1, args1)
                  else analyse_loop len list_size (i + 1) (args1 ! i) arg_num1 arg_list1 args1)
               else Inl (Arg_list_overrun arg_num)))
         else analyse_loop len list_size (i + 1) (args ! i) arg_num arg_list args)
      else Inr (arg_num, arg_list, args))"
  by pat_completeness auto
termination
  by (relation "measure (\<lambda>(len, ls, i, p, n, l, a). Suc len - i)") auto

declare analyse_loop.simps [simp del]

text \<open>
  \<open>text\<close> is the C string the caller passes; the array holds it and its terminator.
  The result is the returned count, the pointer array and the array as the call leaves it.
\<close>

definition ATCmdParser_analyse_args ::
  "string \<Rightarrow> nat list \<Rightarrow> int \<Rightarrow> fault + (nat \<times> nat list \<times> char list)" where
  "ATCmdParser_analyse_args text arg_list list_size =
     (let args = text @ [NUL]; len = strlen args in
      if arg_list = [] then Inl (Arg_list_overrun 0)
      else analyse_loop len list_size 0 NUL 1 (arg_list[0 := 0]) args)"

text \<open>The strings the first \<open>n\<close> pointers of \<open>arg_list\<close> point to.\<close>

definition arg_strings :: "nat \<Rightarrow> nat list \<Rightarrow> char list \<Rightarrow> string list" where
  "arg_strings n arg_list args = map (c_string_at args) (take n arg_list)"

definition escaped_example :: string where
  "escaped_example = ''111,222,333'' @ [CHR 0x5C] @ '',33,444''"

section \<open>What the specification says, and worked examples\<close>

text \<open>
  The pattern rewriter in the words of the specification: the verification template is
  the line with every \<^verbatim>\<open>%\<close> that is not followed by \<^verbatim>\<open>%\<close> or \<^verbatim>\<open>*\<close> replaced
  by \<^verbatim>\<open>%*\<close>, and \<^verbatim>\<open>%n\<close> after it; the whole line is wanted when the line has a
  line feed that does not come right after \<^verbatim>\<open>[^\<close>.
\<close>

definition percent_rewritten :: "string \<Rightarrow> nat \<Rightarrow> string" where
  "percent_rewritten line k =
     (if line ! k = CHR ''%'' \<and> c_at line (k + 1) \<noteq> CHR ''%'' \<and> c_at line (k + 1) \<noteq> CHR ''*''
      then ''%*'' else [line ! k])"

definition spec_template :: "string \<Rightarrow> string" where
  "spec_template line = concat (map (percent_rewritten line) [0..<length line]) @ ''%n''"

definition bare_line_break :: "string \<Rightarrow> nat \<Rightarrow> bool" where
  "bare_line_break line k =
     (line ! k = LF \<and> \<not> (2 \<le> k \<and> line ! (k - 2) = CHR ''['' \<and> line ! (k - 1) = CHR ''^''))"

definition spec_whole_line_wanted :: "string \<Rightarrow> bool" where
  "spec_whole_line_wanted line = (\<exists>k < length line. bare_line_break line k)"

text \<open>
  The line of a pattern that the rewriter is to work on, in the words of the
  specification: the pattern up to its terminating NUL, cut after its first line feed
  that does not come right after \<^verbatim>\<open>[^\<close>; the whole of it when it has none.
\<close>

definition spec_line :: "string \<Rightarrow> string" where
  "spec_line response =
     (let s = takeWhile (\<lambda>c. c \<noteq> NUL) response in
      case List.find (bare_line_break s) [0..<length s] of
        None \<Rightarrow> s
      | Some k \<Rightarrow> take (k + 1) s)"

text \<open>The first \<open>n\<close> reads of a script all deliver a byte.\<close>

definition reads_succeed :: "char option list \<Rightarrow> nat \<Rightarrow> bool" where
  "reads_succeed script n = (n \<le> length script \<and> None \<notin> set (take n script))"

text \<open>
  Buffers with the template of the line \<^verbatim>\<open>OK\<close> and of the line \<^verbatim>\<open>B\<close> staged, a
  session with the prefix \<^verbatim>\<open>+X\<close> registered, a transport that delivers the bytes
  of a string and then falls silent, a pattern of two lines, a registry of two entries,
  a pattern with a conversion, and 2039 bytes of noise followed by a colon and a line feed.
\<close>

definition ok_staged :: at_buffer where
  "ok_staged = (\<lambda>_. NUL)(0 := CHR ''O'', 1 := CHR ''K'', 2 := CHR ''%'', 3 := CHR ''n'')"

definition b_staged :: at_buffer where
  "b_staged = (\<lambda>_. NUL)(0 := CHR ''B'', 1 := CHR ''%'', 2 := CHR ''n'')"

definition plus_x_parser :: "nat ATParser" where
  "plus_x_parser = ATCmdParser_add_oob idle_parser ''+X'' (Some 7)"

definition script :: "string \<Rightarrow> nat world" where
  "script s = \<lparr>rx = bytes s, readable = True, trace = []\<rparr>"

definition two_lines :: string where
  "two_lines = ''A'' @ [LF] @ ''B''"

definition two_prefixes :: "nat oob list" where
  "two_prefixes =
     [\<lparr>oob_len = 3, oob_prefix = ''a+X'', oob_cb = Some 9\<rparr>,
      \<lparr>oob_len = 2, oob_prefix = ''+X'', oob_cb = Some 7\<rparr>]"

definition csq_pattern :: string where
  "csq_pattern = ''+CSQ: %d'' @ [LF] @ ''OK''"

definition ok_line :: string where
  "ok_line = ''OK'' @ [LF]"

text \<open>
  A pattern whose first line has a line feed inside a \<^verbatim>\<open>%[^\n]\<close> conversion, a
  buffer with the template of the line \<^verbatim>\<open>OK\n\<close> staged and that line received
  after it, a session whose only entry for \<^verbatim>\<open>+X\<close> has no callback, and two
  sessions with \<^verbatim>\<open>+X\<close> registered twice: the later registration, which is the
  first entry of the registry, has no callback in the one and callback 9 in the other.
\<close>

definition rest_of_line_pattern :: string where
  "rest_of_line_pattern = ''+X:%[^'' @ [LF] @ '']'' @ [LF] @ ''OK''"

definition ok_line_received :: at_buffer where
  "ok_line_received =
     (\<lambda>_. NUL)(0 := CHR ''O'', 1 := CHR ''K'', 2 := LF, 3 := CHR ''%'', 4 := CHR ''n'',
               6 := CHR ''O'', 7 := CHR ''K'', 8 := LF)"

definition null_cb_parser :: "nat ATParser" where
  "null_cb_parser = ATCmdParser_add_oob idle_parser ''+X'' None"

definition shadowed_parser :: "nat ATParser" where
  "shadowed_parser = ATCmdParser_add_oob plus_x_parser ''+X'' None"

definition twice_parser :: "nat ATParser" where
  "twice_parser = ATCmdParser_add_oob plus_x_parser ''+X'' (Some 9)"

definition overlong_noise :: "char option list" where
  "overlong_noise = map Some (replicate 2039 (CHR ''a'')) @ [Some (CHR '':''), Some LF]"

section \<open>Properties\<close>

lemmas run_defs =
  ATCmdParser_vrecv_def ATCmdParser_add_oob_def idle_parser_def plus_x_parser_def script_def
  bytes_def recv_lines.simps recv_loop.simps recv_step_def stage_template_def rewrite_from.simps
  c_at_def NUL_def LF_def store_def AT_BUFFER_SIZE_def accumulate_def append_char_def
  memcmp_eq_def strlen_def verify_def c_string_from.simps sscanf_literal_def isspace_def
  finish_line_def remove_dummies.simps invoke_cb_def quiet_handlers_def upt_rec
  ok_staged_def b_staged_def

lemmas spec_defs =
  spec_line_def spec_template_def percent_rewritten_def
  bare_line_break_def csq_pattern_def rest_of_line_pattern_def ok_line_def
  c_at_def NUL_def LF_def upt_rec

subsection \<open>Auxiliary facts\<close>

lemma accumulate_grows:
  "accumulate offset c in_prev j dummy dummy_pos buf = Inr (j1, dummy1, dummy_pos1, buf1) \<Longrightarrow> j < j1"
  by (auto simp: accumulate_def append_char_def split: if_splits sum.splits)

lemma c_at_whole: "map (c_at p) [0..<length p] = p"
  by (rule nth_equalityI) (simp_all add: c_at_def)

lemma oob_scan_Some:
  "oob_scan registry buf off j = Some e \<Longrightarrow>
     e \<in> set registry \<and> j = oob_len e \<and> memcmp_eq (oob_prefix e) buf off (oob_len e)"
  by (induction registry) (auto split: if_splits)

lemma oob_scan_finds:
  "e \<in> set registry \<Longrightarrow> j = oob_len e \<Longrightarrow> memcmp_eq (oob_prefix e) buf off (oob_len e)
     \<Longrightarrow> \<exists>e'. oob_scan registry buf off j = Some e'"
  by (induction registry) auto

lemma oob_scan_whole_candidate:
  assumes "oob_scan registry buf off j = Some e" "oob_len e = length (oob_prefix e)"
  shows "map buf [off..<off + j] = oob_prefix e"
proof -
  have "j = oob_len e" "memcmp_eq (oob_prefix e) buf off (oob_len e)"
    using oob_scan_Some[OF assms(1)] by auto
  then show ?thesis using assms(2) c_at_whole[of "oob_prefix e"] by (simp add: memcmp_eq_def)
qed

lemma add_oob_registers:
  assumes "NUL \<notin> set prefix" "\<forall>e \<in> set (oobs at). oob_len e = length (oob_prefix e)"
  shows "\<forall>e \<in> set (oobs (ATCmdParser_add_oob at prefix cb)). oob_len e = length (oob_prefix e)"
proof -
  have tw: "takeWhile (\<lambda>c. c \<noteq> NUL) prefix = prefix"
    using assms(1) by (auto simp: takeWhile_eq_all_conv)
  show ?thesis using assms(2) by (simp add: ATCmdParser_add_oob_def strlen_def tw)
qed

lemma rewrite_from_range:
  "rewrite_from r i = (out, i', wl) \<Longrightarrow> i \<le> length r \<Longrightarrow> i \<le> i' \<and> i' \<le> length r"
proof (induction r i arbitrary: out i' wl rule: rewrite_from.induct)
  case (1 response i)
  show ?case
  proof (cases "c_at response i \<noteq> NUL")
    case False
    with "1.prems" show ?thesis by (simp add: rewrite_from.simps[of response i])
  next
    case True
    then have lt: "i < length response" by (auto simp: c_at_def split: if_splits)
    with True "1.prems" "1.IH" show ?thesis
      by (auto simp: rewrite_from.simps[of response i] split: if_splits prod.splits)
  qed
qed

lemma rewrite_from_out:
  "rewrite_from r i = (out, i', wl) \<Longrightarrow> i \<le> length r \<Longrightarrow>
     out = concat (map (percent_rewritten r) [i..<i'])
     \<and> (\<forall>k. i \<le> k \<and> k < i' \<longrightarrow> r ! k \<noteq> NUL)
     \<and> (\<forall>k. i \<le> k \<and> k + 1 < i' \<longrightarrow> \<not> bare_line_break r k)
     \<and> (wl \<longrightarrow> i < i' \<and> bare_line_break r (i' - 1))
     \<and> (\<not> wl \<longrightarrow> c_at r i' = NUL \<and> (\<forall>k. i \<le> k \<and> k < i' \<longrightarrow> \<not> bare_line_break r k))"
proof (induction r i arbitrary: out i' wl rule: rewrite_from.induct)
  case (1 r i)
  show ?case
  proof (cases "c_at r i \<noteq> NUL")
    case False
    with "1.prems" show ?thesis by (auto simp add: rewrite_from.simps[of r i])
  next
    case nn: True
    then have lt: "i < length r" by (auto simp: c_at_def split: if_splits)
    have ri: "c_at r i = r ! i" using lt by (simp add: c_at_def)
    show ?thesis
    proof (cases "c_at r i = CHR ''%'' \<and> c_at r (i + 1) \<noteq> CHR ''%'' \<and> c_at r (i + 1) \<noteq> CHR ''*''")
      case pc: True
      obtain out1 where r1: "rewrite_from r (i + 1) = (out1, i', wl)" and o: "out = CHR ''%'' # CHR ''*'' # out1"
        using "1.prems"(1) nn pc by (auto simp: rewrite_from.simps[of r i] split: prod.splits)
      have range: "i + 1 \<le> i'" using rewrite_from_range[OF r1] lt by simp
      have IH: "out1 = concat (map (percent_rewritten r) [i + 1..<i'])
     \<and> (\<forall>k. i + 1 \<le> k \<and> k < i' \<longrightarrow> r ! k \<noteq> NUL)
     \<and> (\<forall>k. i + 1 \<le> k \<and> k + 1 < i' \<longrightarrow> \<not> bare_line_break r k)
     \<and> (wl \<longrightarrow> i + 1 < i' \<and> bare_line_break r (i' - 1))
     \<and> (\<not> wl \<longrightarrow> c_at r i' = NUL \<and> (\<forall>k. i + 1 \<le> k \<and> k < i' \<longrightarrow> \<not> bare_line_break r k))"
        using "1.IH"(1)[OF nn pc r1] lt by simp
      have notlf: "\<not> bare_line_break r i" using pc ri by (simp add: bare_line_break_def LF_def)
      have upt: "[i..<i'] = i # [i + 1..<i']" using range by (simp add: upt_conv_Cons)
      have pr: "percent_rewritten r i = ''%*''" using pc ri by (simp add: percent_rewritten_def)
      have step: "\<And>k. i \<le> k \<Longrightarrow> k = i \<or> i + 1 \<le> k" by arith
      show ?thesis
        using IH o upt pr notlf nn ri range apply (intro conjI)
            apply simp
           apply (metis step)
          apply (metis step)
         apply simp
        apply (metis step)
        done
    next
      case npc: False
      show ?thesis
      proof (cases "c_at r i = LF \<and> \<not> (i + 1 \<ge> 3 \<and> c_at r (i + 1 - 3) = CHR ''['' \<and> c_at r (i + 1 - 2) = CHR ''^'')")
        case brk: True
        have res: "out = [c_at r i]" "i' = i + 1" "wl"
          using "1.prems"(1) nn npc brk by (auto simp: rewrite_from.simps[of r i] LF_def)
        have pr: "percent_rewritten r i = [r ! i]" using npc ri by (auto simp: percent_rewritten_def)
        have b: "bare_line_break r i"
          using brk ri lt unfolding bare_line_break_def c_at_def
          by (auto split: if_splits)
        have one: "\<And>k. i \<le> k \<Longrightarrow> k < Suc i \<Longrightarrow> k = i" by arith
        show ?thesis using res pr b nn ri by (auto dest: one)
      next
        case nbrk: False
        obtain out1 where r1: "rewrite_from r (i + 1) = (out1, i', wl)" and o: "out = c_at r i # out1"
          using "1.prems"(1) nn npc nbrk by (auto simp: rewrite_from.simps[of r i] split: prod.splits)
        have range: "i + 1 \<le> i'" using rewrite_from_range[OF r1] lt by simp
        have IH: "out1 = concat (map (percent_rewritten r) [i + 1..<i'])
     \<and> (\<forall>k. i + 1 \<le> k \<and> k < i' \<longrightarrow> r ! k \<noteq> NUL)
     \<and> (\<forall>k. i + 1 \<le> k \<and> k + 1 < i' \<longrightarrow> \<not> bare_line_break r k)
     \<and> (wl \<longrightarrow> i + 1 < i' \<and> bare_line_break r (i' - 1))
     \<and> (\<not> wl \<longrightarrow> c_at r i' = NUL \<and> (\<forall>k. i + 1 \<le> k \<and> k < i' \<longrightarrow> \<not> bare_line_break r k))"
          using "1.IH"(2)[OF nn npc nbrk r1] lt by simp
        have notlf: "\<not> bare_line_break r i"
          using nbrk ri lt unfolding bare_line_break_def c_at_def
          by (auto split: if_splits)
        have upt: "[i..<i'] = i # [i + 1..<i']" using range by (simp add: upt_conv_Cons)
        have pr: "percent_rewritten r i = [r ! i]" using npc ri by (auto simp: percent_rewritten_def)
        have step: "\<And>k. i \<le> k \<Longrightarrow> k = i \<or> i + 1 \<le> k" by arith
        show ?thesis
          using IH o upt pr notlf nn ri range apply (intro conjI)
              apply simp
             apply (metis step)
            apply (metis step)
           apply simp
          apply (metis step)
          done
      qed
    qed
  qed
qed


lemma c_at_take: "k < n \<Longrightarrow> c_at (take n r) k = c_at r k"
  by (simp add: c_at_def)

lemma bare_line_break_take:
  "k < n \<Longrightarrow> n \<le> length r \<Longrightarrow> bare_line_break (take n r) k = bare_line_break r k"
  by (auto simp: bare_line_break_def)

lemma percent_rewritten_take:
  assumes "k < n" "n \<le> length r" "c_at r n = NUL \<or> r ! (n - 1) = LF"
  shows "percent_rewritten (take n r) k = percent_rewritten r k"
proof (cases "k + 1 < n")
  case True
  then show ?thesis using assms by (simp add: percent_rewritten_def c_at_take)
next
  case False
  then have k: "k + 1 = n" using assms by simp
  have t: "c_at (take n r) (k + 1) = NUL" using k assms by (simp add: c_at_def)
  have tk: "take n r ! k = r ! k" using assms by simp
  show ?thesis
  proof (cases "r ! k = CHR ''%''")
    case True
    then have "r ! (n - 1) \<noteq> LF" using k by (auto simp: LF_def)
    then have "c_at r (k + 1) = NUL" using assms k by auto
    then show ?thesis using t tk by (simp add: percent_rewritten_def)
  next
    case False
    then show ?thesis using tk by (simp add: percent_rewritten_def)
  qed
qed

lemma store_bytes_content:
  "store_bytes k xs buf = Inr buf1 \<Longrightarrow>
     k + length xs \<le> AT_BUFFER_SIZE \<or> xs = []"
  "store_bytes k xs buf = Inr buf1 \<Longrightarrow> m < length xs \<Longrightarrow> buf1 (k + m) = xs ! m"
  "store_bytes k xs buf = Inr buf1 \<Longrightarrow> m < k \<Longrightarrow> buf1 m = buf m"
proof (induction xs arbitrary: k buf m)
  case Nil
  { case 1 show ?case by simp next
    case 2 then show ?case by simp next
    case 3 then show ?case by simp }
next
  case (Cons x xs)
  { case 1
    then obtain b where b: "store k x buf = Inr b" "store_bytes (Suc k) xs b = Inr buf1"
      by (auto split: sum.splits)
    have "k < AT_BUFFER_SIZE" using b(1) by (auto simp: store_def split: if_splits)
    with Cons.IH(1)[OF b(2)] show ?case by auto
  next
    case 2
    then obtain b where b: "store k x buf = Inr b" "store_bytes (Suc k) xs b = Inr buf1"
      by (auto split: sum.splits)
    have bk: "b = buf(k := x)" using b(1) by (auto simp: store_def split: if_splits)
    show ?case
    proof (cases m)
      case 0
      have "buf1 k = b k" using Cons.IH(3)[OF b(2), of k] by simp
      then show ?thesis using 0 bk by simp
    next
      case (Suc m')
      then show ?thesis using Cons.IH(2)[OF b(2), of m'] 2 by simp
    qed
  next
    case 3
    then obtain b where b: "store k x buf = Inr b" "store_bytes (Suc k) xs b = Inr buf1"
      by (auto split: sum.splits)
    have bk: "b = buf(k := x)" using b(1) by (auto simp: store_def split: if_splits)
    have "buf1 m = b m" using Cons.IH(3)[OF b(2), of m] 3 by simp
    then show ?case using bk 3 by simp }
qed

lemma c_string_from_content:
  "\<forall>m < length s. buf (k + m) = s ! m \<Longrightarrow> NUL \<notin> set s \<Longrightarrow> buf (k + length s) = NUL
     \<Longrightarrow> k + length s < AT_BUFFER_SIZE \<Longrightarrow> c_string_from buf k = Inr s"
proof (induction s arbitrary: k)
  case Nil
  then show ?case by (simp add: c_string_from.simps[of buf k])
next
  case (Cons x xs)
  have x: "buf k = x" using Cons.prems(1) by auto
  have "\<forall>m<length xs. buf (Suc k + m) = xs ! m"
    using Cons.prems(1) by (metis add_Suc_shift length_Cons nth_Cons_Suc Suc_less_eq add_Suc)
  then have "c_string_from buf (Suc k) = Inr xs"
    using Cons.IH[of "Suc k"] Cons.prems by simp
  moreover have "x \<noteq> NUL" using Cons.prems(2) by auto
  ultimately show ?case using x Cons.prems by (simp add: c_string_from.simps[of buf k])
qed

lemma percent_rewritten_no_NUL:
  "r ! k \<noteq> NUL \<Longrightarrow> NUL \<notin> set (percent_rewritten r k)"
  by (simp add: percent_rewritten_def NUL_def)

lemma invoke_cb_rx:
  "invoke_cb cbs oob at w = (at2, w2) \<Longrightarrow> set (rx w2) \<subseteq> set (rx w)"
  by (auto simp: invoke_cb_def split: option.splits prod.splits dest: in_set_dropD)

lemma never_aborted:
  "\<not> aborted \<Longrightarrow> fst (recv_lines sscanf_n cbs response in_prev aborted at w) \<noteq> Aborted"
  "\<not> aborted \<Longrightarrow>
     fst (recv_loop sscanf_n cbs response i offset whole_line_wanted j dummy dummy_pos
            in_prev aborted at w) \<noteq> Aborted"
proof (induction sscanf_n cbs response in_prev aborted at w
         and sscanf_n cbs response i offset whole_line_wanted j dummy dummy_pos in_prev aborted at w
       rule: recv_lines_recv_loop.induct)
  case (1 sscanf_n cbs response in_prev aborted at w)
  then show ?case
    unfolding recv_lines.simps[of sscanf_n cbs response in_prev aborted at w]
    by (auto split: sum.splits prod.splits)
next
  case (2 sscanf_n cbs response i offset whole_line_wanted j dummy dummy_pos in_prev aborted at w)
  then show ?case
    unfolding recv_loop.simps[of sscanf_n cbs response i offset whole_line_wanted j dummy
          dummy_pos in_prev aborted at w]
    by (auto split: list.splits option.splits step.splits prod.splits)
qed

lemma timeout_only_when_silent:
  "None \<notin> set (rx w) \<Longrightarrow>
     fst (recv_lines sscanf_n cbs response in_prev aborted at w) = Timeout \<Longrightarrow>
     rx (snd (snd (recv_lines sscanf_n cbs response in_prev aborted at w))) = []"
  "None \<notin> set (rx w) \<Longrightarrow>
     fst (recv_loop sscanf_n cbs response i offset whole_line_wanted j dummy dummy_pos
            in_prev aborted at w) = Timeout \<Longrightarrow>
     rx (snd (snd (recv_loop sscanf_n cbs response i offset whole_line_wanted j dummy dummy_pos
            in_prev aborted at w))) = []"
proof (induction sscanf_n cbs response in_prev aborted at w
         and sscanf_n cbs response i offset whole_line_wanted j dummy dummy_pos in_prev aborted at w
       rule: recv_lines_recv_loop.induct)
  case (1 sscanf_n cbs response in_prev aborted at w)
  then show ?case
    by (auto simp: recv_lines.simps[of sscanf_n cbs response in_prev aborted at w]
        split: sum.splits prod.splits)
next
  case (2 sscanf_n cbs response i offset whole_line_wanted j dummy dummy_pos in_prev aborted at w)
  show ?case
  proof (cases "rx w")
    case Nil
    then show ?thesis
      by (simp add: recv_loop.simps[of sscanf_n cbs response i offset whole_line_wanted j dummy
          dummy_pos in_prev aborted at w])
  next
    case (Cons x rest)
    with "2.prems"(1) obtain c where x: "x = Some c" and rest: "None \<notin> set rest"
      by (cases x) auto
    note unf = recv_loop.simps[of sscanf_n cbs response i offset whole_line_wanted j dummy
          dummy_pos in_prev aborted at w]
    show ?thesis
    proof (cases "recv_step sscanf_n (oobs at) response i offset whole_line_wanted j dummy
                  dummy_pos in_prev c (buffer at)")
      case (Step_fault f)
      then show ?thesis using "2.prems"(2) Cons x by (simp add: unf)
    next
      case (Oob_detected oob buf1)
      obtain at2 w2 where inv: "invoke_cb cbs oob (at\<lparr>buffer := buf1\<rparr>) (w\<lparr>rx := rest\<rparr>) = (at2, w2)"
        by (cases "invoke_cb cbs oob (at\<lparr>buffer := buf1\<rparr>) (w\<lparr>rx := rest\<rparr>)") auto
      have nn: "None \<notin> set (rx w2)" using invoke_cb_rx[OF inv] rest by auto
      show ?thesis
      proof (cases aborted)
        case True
        show ?thesis using "2.prems"(2) Cons x Oob_detected inv True unfolding unf by simp
      next
        case False
        show ?thesis
          using "2.IH"(1)[OF Cons x Oob_detected inv[symmetric] False nn] "2.prems"(2) Cons x
            Oob_detected inv False
          unfolding unf by simp
      qed
    next
      case (Line_matched buf2 data fmt)
      then show ?thesis
        using "2.IH"(2)[OF Cons x Line_matched] "2.prems"(2) Cons x rest by (simp add: unf)
    next
      case (Candidate_reset dp1 buf1)
      then show ?thesis
        using "2.IH"(3)[OF Cons x Candidate_reset] "2.prems"(2) Cons x rest by (simp add: unf)
    next
      case (Keep_reading j1 d1 dp1 buf1)
      then show ?thesis
        using "2.IH"(4)[OF Cons x Keep_reading] "2.prems"(2) Cons x rest by (simp add: unf)
    qed
  qed
qed

lemma read_loop_all:
  "i \<le> nat sz \<Longrightarrow> nat sz \<le> length data \<Longrightarrow> reads_succeed (rx w) (nat sz - i) \<Longrightarrow>
     read_loop sz i data w =
       Inr (int (nat sz),
            take i data @ map the (take (nat sz - i) (rx w)) @ drop (nat sz) data,
            w\<lparr>rx := drop (nat sz - i) (rx w)\<rparr>)"
proof (induction sz i data w rule: read_loop.induct)
  case (1 sz i data w)
  show ?case
  proof (cases "int i < sz")
    case False
    then have "nat sz = i" using "1.prems" by linarith
    then show ?thesis using False by (simp add: read_loop.simps[of sz i data w])
  next
    case True
    then have m: "nat sz - i = Suc (nat sz - (i + 1))" by linarith
    from "1.prems"(3) obtain x rest where xr: "rx w = x # rest" "None \<noteq> x"
      and rest: "reads_succeed rest (nat sz - (i + 1))"
      unfolding m reads_succeed_def by (cases "rx w") simp_all
    then obtain c where rxw: "rx w = Some c # rest" by (cases x) auto
    have il: "i < length data" using True "1.prems"(2) by linarith
    have IH: "read_loop sz (i + 1) (data[i := c]) (w\<lparr>rx := rest\<rparr>) =
       Inr (int (nat sz),
            take (i + 1) (data[i := c]) @ map the (take (nat sz - (i + 1)) rest)
              @ drop (nat sz) (data[i := c]),
            w\<lparr>rx := rest, rx := drop (nat sz - (i + 1)) rest\<rparr>)"
      using "1.IH"[OF True rxw refl il] True "1.prems"(2) rest by simp
    have t: "take (i + 1) (data[i := c]) = take i data @ [c]"
      using il by (simp add: take_Suc_conv_app_nth)
    have d: "drop (nat sz) (data[i := c]) = drop (nat sz) data"
      using True by simp
    show ?thesis
      unfolding read_loop.simps[of sz i data w]
      using True rxw il IH t d m by simp
  qed
qed

lemma read_loop_timeout:
  "nat sz \<le> length data \<Longrightarrow> \<not> reads_succeed (rx w) (nat sz - i) \<Longrightarrow>
     \<exists>d w'. read_loop sz i data w = Inr (- 1, d, w')"
proof (induction sz i data w rule: read_loop.induct)
  case (1 sz i data w)
  show ?case
  proof (cases "int i < sz")
    case False
    then have "nat sz - i = 0" by linarith
    then show ?thesis using "1.prems"(2) by (simp add: reads_succeed_def)
  next
    case True
    then have m: "nat sz - i = Suc (nat sz - (i + 1))" by linarith
    have il: "i < length data" using True "1.prems"(1) by linarith
    show ?thesis
    proof (cases "rx w")
      case Nil
      then show ?thesis using True by (simp add: read_loop.simps[of sz i data w])
    next
      case (Cons x rest)
      show ?thesis
      proof (cases x)
        case None
        then show ?thesis using True Cons by (simp add: read_loop.simps[of sz i data w])
      next
        case (Some c)
        have "\<not> reads_succeed rest (nat sz - (i + 1))"
          using "1.prems"(2) Cons Some unfolding m reads_succeed_def by auto
        then have "\<exists>d w'. read_loop sz (i + 1) (data[i := c]) (w\<lparr>rx := rest\<rparr>) = Inr (- 1, d, w')"
          using "1.IH"[OF True _ refl il, of c rest] Cons Some "1.prems"(1) by simp
        then show ?thesis
          unfolding read_loop.simps[of sz i data w] using True Cons Some il by simp
      qed
    qed
  qed
qed

lemma quiet_step:
  assumes "c \<noteq> LF" "offset + j + 2 < AT_BUFFER_SIZE"
  shows "\<exists>buf1. recv_step sscanf_n [] response i offset True j dummy dummy_pos in_prev c buf
           = Keep_reading (j + 1) dummy dummy_pos buf1"
  using assms
  by (simp add: recv_step_def accumulate_def append_char_def store_def verify_def)

lemma quiet_loop_step:
  assumes "c \<noteq> LF" "offset + j + 2 < AT_BUFFER_SIZE" "oobs at = []"
  shows "\<exists>buf1. recv_loop sscanf_n cbs response i offset True j dummy dummy_pos in_prev aborted at
             (w\<lparr>rx := Some c # later\<rparr>)
           = recv_loop sscanf_n cbs response i offset True (j + 1) dummy dummy_pos c aborted
               (at\<lparr>buffer := buf1\<rparr>) (w\<lparr>rx := later\<rparr>)"
proof -
  obtain buf1 where s: "recv_step sscanf_n (oobs at) response i offset True j dummy dummy_pos
      in_prev c (buffer at) = Keep_reading (j + 1) dummy dummy_pos buf1"
    using quiet_step[OF assms(1,2)] assms(3) by metis
  show ?thesis
    by (rule exI[of _ buf1])
       (simp add: recv_loop.simps[of sscanf_n cbs response i offset True j dummy dummy_pos
          in_prev aborted at "w\<lparr>rx := Some c # later\<rparr>"] s)
qed

lemma noise_accumulates:
  assumes "offset + (j + n) + 1 < AT_BUFFER_SIZE" "oobs at = []" "0 < n"
  shows "\<exists>buf1. recv_loop sscanf_n cbs response i offset True j dummy dummy_pos in_prev aborted at
             (w\<lparr>rx := map Some (replicate n (CHR ''a'')) @ later\<rparr>)
           = recv_loop sscanf_n cbs response i offset True (j + n) dummy dummy_pos (CHR ''a'')
               aborted (at\<lparr>buffer := buf1\<rparr>) (w\<lparr>rx := later\<rparr>)"
  using assms
proof (induction n arbitrary: j in_prev at)
  case 0
  then show ?case by simp
next
  case (Suc n)
  have a: "CHR ''a'' \<noteq> LF" by (simp add: LF_def)
  obtain b1 where first:
    "recv_loop sscanf_n cbs response i offset True j dummy dummy_pos in_prev aborted at
             (w\<lparr>rx := Some (CHR ''a'') # (map Some (replicate n (CHR ''a'')) @ later)\<rparr>)
           = recv_loop sscanf_n cbs response i offset True (j + 1) dummy dummy_pos (CHR ''a'') aborted
               (at\<lparr>buffer := b1\<rparr>) (w\<lparr>rx := map Some (replicate n (CHR ''a'')) @ later\<rparr>)"
    using quiet_loop_step[OF a, where offset=offset and j=j and at=at and sscanf_n=sscanf_n
        and cbs=cbs and response=response and i=i and dummy=dummy and dummy_pos=dummy_pos
        and in_prev=in_prev and aborted=aborted and w=w
        and later="map Some (replicate n (CHR ''a'')) @ later"] Suc.prems
    by auto
  show ?case
  proof (cases n)
    case 0
    then show ?thesis using first by auto
  next
    case (Suc m)
    obtain b2 where rest:
      "recv_loop sscanf_n cbs response i offset True (j + 1) dummy dummy_pos (CHR ''a'') aborted
               (at\<lparr>buffer := b1\<rparr>) (w\<lparr>rx := map Some (replicate n (CHR ''a'')) @ later\<rparr>)
        = recv_loop sscanf_n cbs response i offset True (j + 1 + n) dummy dummy_pos (CHR ''a'')
               aborted (at\<lparr>buffer := b1, buffer := b2\<rparr>) (w\<lparr>rx := later\<rparr>)"
      using Suc.IH[of "j + 1" "at\<lparr>buffer := b1\<rparr>" "CHR ''a''"] Suc.prems Suc by auto
    show ?thesis
      using first rest by (auto simp: add.commute add.left_commute)
  qed
qed

text \<open>The rewriter stops where the line of the pattern ends.\<close>

lemma find_first_index:
  "k < m \<Longrightarrow> P k \<Longrightarrow> \<forall>j<k. \<not> P j \<Longrightarrow> List.find P [0..<m] = Some k"
  by (simp add: find_Some_iff) (rule exI[of _ k], simp)

lemma rewrite_from_line:
  assumes rw: "rewrite_from response 0 = (out, i, whole)"
  shows "take i response = spec_line response"
proof -
  let ?s = "takeWhile (\<lambda>c. c \<noteq> NUL) response"
  let ?m = "length ?s"
  have range: "i \<le> length response" using rewrite_from_range[OF rw] by simp
  note ch = rewrite_from_out[OF rw, simplified]
  have s: "?s = take ?m response" by (rule takeWhile_eq_take)
  have ml: "?m \<le> length response" by (rule length_takeWhile_le)
  have im: "i \<le> ?m"
    using ch range by (intro length_takeWhile_less_P_nth) auto
  have bs: "\<And>k. k < ?m \<Longrightarrow> bare_line_break ?s k = bare_line_break response k"
    using bare_line_break_take[OF _ ml] s by metis
  show ?thesis
  proof (cases whole)
    case True
    then have k: "0 < i" "bare_line_break response (i - 1)" using ch by auto
    have "List.find (bare_line_break ?s) [0..<?m] = Some (i - 1)"
    proof (rule find_first_index)
      show "i - 1 < ?m" using k im by simp
      show "bare_line_break ?s (i - 1)" using k im bs[of "i - 1"] by simp
      show "\<forall>j<i - 1. \<not> bare_line_break ?s j"
      proof (intro allI impI)
        fix j assume j: "j < i - 1"
        then have "\<not> bare_line_break response j" using ch by simp
        then show "\<not> bare_line_break ?s j" using bs[of j] j im by simp
      qed
    qed
    then have "spec_line response = take i ?s"
      using k by (simp add: spec_line_def)
    also have "\<dots> = take i (take ?m response)" using s by simp
    also have "\<dots> = take i response" using im by (simp add: min_def)
    finally show ?thesis by simp
  next
    case False
    then have z: "c_at response i = NUL" and nb: "\<forall>k<i. \<not> bare_line_break response k"
      using ch by auto
    have "\<not> i < ?m"
    proof
      assume lt: "i < ?m"
      then have "?s ! i \<in> set ?s" by simp
      then have "?s ! i \<noteq> NUL" by (auto dest: set_takeWhileD)
      moreover have "?s ! i = response ! i" using lt by (rule takeWhile_nth)
      moreover have "c_at response i = response ! i" using lt ml by (simp add: c_at_def)
      ultimately show False using z by simp
    qed
    then have mi: "?m = i" using im by simp
    have "List.find (bare_line_break ?s) [0..<?m] = None"
      using nb bs mi by (auto simp: find_None_iff)
    then have "spec_line response = ?s" by (simp add: spec_line_def)
    then show ?thesis using s mi by simp
  qed
qed


lemma store_bytes_succeeds:
  "k + length xs \<le> AT_BUFFER_SIZE \<Longrightarrow> \<exists>b. store_bytes k xs buf = Inr b"
  by (induction xs arbitrary: k buf) (auto simp: store_def)

text \<open>
  The scan of the registry finds the first entry whose prefix is the candidate. One pass
  of the receive loop and of the idle poller, with and without a detection.
\<close>

lemma oob_scan_is_find:
  assumes "\<forall>e \<in> set registry. oob_len e = length (oob_prefix e)"
  shows "oob_scan registry buf off j
           = List.find (\<lambda>x. oob_prefix x = map buf [off..<off + j]) registry"
  using assms
proof (induction registry)
  case Nil
  then show ?case by simp
next
  case (Cons e es)
  have l: "oob_len e = length (oob_prefix e)" using Cons.prems by simp
  have "(j = oob_len e \<and> memcmp_eq (oob_prefix e) buf off (oob_len e))
          = (oob_prefix e = map buf [off..<off + j])"
  proof
    assume a: "j = oob_len e \<and> memcmp_eq (oob_prefix e) buf off (oob_len e)"
    then show "oob_prefix e = map buf [off..<off + j]"
      using l c_at_whole[of "oob_prefix e"] by (simp add: memcmp_eq_def)
  next
    assume b: "oob_prefix e = map buf [off..<off + j]"
    then have "length (oob_prefix e) = j" by simp
    then show "j = oob_len e \<and> memcmp_eq (oob_prefix e) buf off (oob_len e)"
      using l b c_at_whole[of "oob_prefix e"] by (simp add: memcmp_eq_def)
  qed
  then show ?case using Cons by simp
qed

lemma recv_loop_oob_pass:
  assumes "rx w = Some c # rest"
    and "recv_step sscanf_n (oobs at) response i offset whole_line_wanted j dummy dummy_pos
           in_prev c (buffer at) = Oob_detected e buf1"
  shows "recv_loop sscanf_n cbs response i offset whole_line_wanted j dummy dummy_pos
           in_prev aborted at w
         = (case oob_cb e of
              None \<Rightarrow>
                if aborted then (Aborted, at\<lparr>buffer := buf1\<rparr>, w\<lparr>rx := rest\<rparr>)
                else recv_lines sscanf_n cbs response c False (at\<lparr>buffer := buf1\<rparr>)
                       (w\<lparr>rx := rest\<rparr>)
            | Some h \<Rightarrow>
                if aborted then
                  (Aborted, fst (cbs h (at\<lparr>buffer := buf1\<rparr>) rest),
                   w\<lparr>rx := drop (snd (cbs h (at\<lparr>buffer := buf1\<rparr>) rest)) rest,
                      trace := trace w @ [Oob_called h]\<rparr>)
                else recv_lines sscanf_n cbs response c False
                       (fst (cbs h (at\<lparr>buffer := buf1\<rparr>) rest))
                       (w\<lparr>rx := drop (snd (cbs h (at\<lparr>buffer := buf1\<rparr>) rest)) rest,
                          trace := trace w @ [Oob_called h]\<rparr>))"
  unfolding recv_loop.simps[of sscanf_n cbs response i offset whole_line_wanted j dummy
          dummy_pos in_prev aborted at w]
  using assms by (simp add: invoke_cb_def split: option.splits prod.splits)

lemma recv_loop_oob_restart:
  assumes "rx w = Some c # rest"
    and "recv_step sscanf_n (oobs at) response i offset whole_line_wanted j dummy dummy_pos
           in_prev c (buffer at) = Oob_detected e buf1"
  shows "recv_loop sscanf_n cbs response i offset whole_line_wanted j dummy dummy_pos
           in_prev False at w
         = (case oob_cb e of
              None \<Rightarrow>
                recv_lines sscanf_n cbs response c False (at\<lparr>buffer := buf1\<rparr>)
                  (w\<lparr>rx := rest\<rparr>)
            | Some h \<Rightarrow>
                recv_lines sscanf_n cbs response c False
                  (fst (cbs h (at\<lparr>buffer := buf1\<rparr>) rest))
                  (w\<lparr>rx := drop (snd (cbs h (at\<lparr>buffer := buf1\<rparr>) rest)) rest,
                     trace := trace w @ [Oob_called h]\<rparr>))"
  using recv_loop_oob_pass[OF assms, of cbs False] by (cases "oob_cb e") simp_all

lemma recv_loop_plain_pass:
  assumes "rx w = Some c # rest"
    and "accumulate offset c in_prev j dummy dummy_pos (buffer at)
           = Inr (j1, dummy1, dummy_pos1, buf1)"
    and "oob_scan (oobs at) buf1 offset j1 = None"
  shows "recv_loop sscanf_n cbs response i offset whole_line_wanted j dummy dummy_pos
           in_prev aborted at w
         = (case verify sscanf_n whole_line_wanted c offset buf1 of
              Inl f \<Rightarrow> (Fault f, at, w\<lparr>rx := rest\<rparr>)
            | Inr count \<Rightarrow>
                if count = int j1 then
                  (case finish_line response i offset j1 dummy1 dummy_pos1 buf1 of
                     Inl f \<Rightarrow> (Fault f, at, w\<lparr>rx := rest\<rparr>)
                   | Inr (buf2, data, fmt) \<Rightarrow>
                       recv_lines sscanf_n cbs (drop i response) c aborted (at\<lparr>buffer := buf2\<rparr>)
                         (w\<lparr>rx := rest, trace := trace w @ [Captured data fmt]\<rparr>))
                else if c = LF \<or> j1 + 1 \<ge> AT_BUFFER_SIZE - offset then
                  recv_loop sscanf_n cbs response i offset whole_line_wanted 0 0 dummy_pos1
                    c aborted (at\<lparr>buffer := buf1\<rparr>) (w\<lparr>rx := rest\<rparr>)
                else
                  recv_loop sscanf_n cbs response i offset whole_line_wanted j1 dummy1 dummy_pos1
                    c aborted (at\<lparr>buffer := buf1\<rparr>) (w\<lparr>rx := rest\<rparr>))"
  unfolding recv_loop.simps[of sscanf_n cbs response i offset whole_line_wanted j dummy
          dummy_pos in_prev aborted at w]
  using assms by (simp add: recv_step_def split: sum.splits prod.splits)

lemma process_loop_oob_pass:
  assumes "rx w = Some c # rest"
    and "process_step at n c = Poll_oob e buf1"
  shows "process_loop cbs n at w
         = (case oob_cb e of
              None \<Rightarrow> (Inr True, at\<lparr>buffer := buf1\<rparr>, w\<lparr>rx := rest\<rparr>)
            | Some h \<Rightarrow>
                (Inr True, fst (cbs h (at\<lparr>buffer := buf1\<rparr>) rest),
                 w\<lparr>rx := drop (snd (cbs h (at\<lparr>buffer := buf1\<rparr>) rest)) rest,
                    trace := trace w @ [Oob_called h]\<rparr>))"
  unfolding process_loop.simps[of cbs n at w]
  using assms by (simp add: invoke_cb_def split: option.splits prod.splits)

lemma process_loop_plain_pass:
  assumes "rx w = Some c # rest"
    and "append_char 0 c n (buffer at) = Inr (n1, buf1)"
    and "oob_scan (oobs at) buf1 0 n1 = None"
  shows "process_loop cbs n at w
         = (case delimiter_seen at n1 buf1 of
              Inl f \<Rightarrow> (Inl f, at, w\<lparr>rx := rest\<rparr>)
            | Inr flush \<Rightarrow>
                if flush then
                  process_loop cbs 0 (at\<lparr>buffer := buf1\<rparr>)
                    (w\<lparr>rx := rest,
                       trace := trace w @
                         (if unprocessed_data at then [Unprocessed (map buf1 [0..<n1]) n1]
                          else [])\<rparr>)
                else process_loop cbs n1 (at\<lparr>buffer := buf1\<rparr>) (w\<lparr>rx := rest\<rparr>))"
  unfolding process_loop.simps[of cbs n at w]
  using assms by (simp add: process_step_def split: sum.splits prod.splits)

text \<open>
  With callbacks that read nothing, a receive on a transport whose first timeout comes
  after bytes that were all delivered either ends with that timeout, having read up to
  it, or ends before it.
\<close>

lemma invoke_cb_quiet:
  "\<forall>h a p. snd (cbs h a p) = 0 \<Longrightarrow> invoke_cb cbs oob at w = (at2, w2) \<Longrightarrow> rx w2 = rx w"
  by (auto simp: invoke_cb_def split: option.splits prod.splits) (metis drop0 snd_conv)

lemma timeout_ends_receive:
  "\<forall>h a p. snd (cbs h a p) = 0 \<Longrightarrow> \<exists>pre. rx w = pre @ None # rest \<and> None \<notin> set pre \<Longrightarrow>
     (fst (recv_lines sscanf_n cbs response in_prev aborted at w) = Timeout
        \<and> rx (snd (snd (recv_lines sscanf_n cbs response in_prev aborted at w))) = rest)
     \<or> (fst (recv_lines sscanf_n cbs response in_prev aborted at w) \<noteq> Timeout
        \<and> (\<exists>s. rx (snd (snd (recv_lines sscanf_n cbs response in_prev aborted at w)))
                  = s @ None # rest))"
  "\<forall>h a p. snd (cbs h a p) = 0 \<Longrightarrow> \<exists>pre. rx w = pre @ None # rest \<and> None \<notin> set pre \<Longrightarrow>
     (fst (recv_loop sscanf_n cbs response i offset whole_line_wanted j dummy dummy_pos
             in_prev aborted at w) = Timeout
        \<and> rx (snd (snd (recv_loop sscanf_n cbs response i offset whole_line_wanted j dummy
             dummy_pos in_prev aborted at w))) = rest)
     \<or> (fst (recv_loop sscanf_n cbs response i offset whole_line_wanted j dummy dummy_pos
             in_prev aborted at w) \<noteq> Timeout
        \<and> (\<exists>s. rx (snd (snd (recv_loop sscanf_n cbs response i offset whole_line_wanted j dummy
             dummy_pos in_prev aborted at w))) = s @ None # rest))"
proof (induction sscanf_n cbs response in_prev aborted at w
         and sscanf_n cbs response i offset whole_line_wanted j dummy dummy_pos in_prev aborted at w
       rule: recv_lines_recv_loop.induct)
  case (1 sscanf_n cbs response in_prev aborted at w)
  note unf = recv_lines.simps[of sscanf_n cbs response in_prev aborted at w]
  show ?case
  proof (cases "c_at response 0 \<noteq> NUL")
    case False
    then show ?thesis using "1.prems"(2) unfolding unf by auto
  next
    case True
    show ?thesis
    proof (cases "stage_template response (buffer at)")
      case (Inl f)
      then show ?thesis using True "1.prems"(2) unfolding unf by auto
    next
      case (Inr r)
      obtain i offset whole buf where r: "r = (i, offset, whole, buf)" by (cases r) auto
      show ?thesis
        using "1.IH"[OF True Inr[unfolded r] refl refl refl "1.prems"] True Inr r
        unfolding unf by simp
    qed
  qed
next
  case (2 sscanf_n cbs response i offset whole_line_wanted j dummy dummy_pos in_prev aborted at w)
  note unf = recv_loop.simps[of sscanf_n cbs response i offset whole_line_wanted j dummy
          dummy_pos in_prev aborted at w]
  obtain pre where pre: "rx w = pre @ None # rest" "None \<notin> set pre"
    using "2.prems"(2) by blast
  show ?case
  proof (cases pre)
    case Nil
    then show ?thesis using pre unfolding unf by simp
  next
    case (Cons x s)
    then obtain c where x: "x = Some c" using pre(2) by (cases x) auto
    have rxw: "rx w = Some c # (s @ None # rest)" using pre Cons x by simp
    have s: "None \<notin> set s" using pre(2) Cons by simp
    have inv: "\<exists>p. s @ None # rest = p @ None # rest \<and> None \<notin> set p" using s by blast
    show ?thesis
    proof (cases "recv_step sscanf_n (oobs at) response i offset whole_line_wanted j dummy
                  dummy_pos in_prev c (buffer at)")
      case (Step_fault f)
      then show ?thesis using rxw unfolding unf by simp
    next
      case (Oob_detected oob buf1)
      obtain at2 w2 where iv: "invoke_cb cbs oob (at\<lparr>buffer := buf1\<rparr>)
          (w\<lparr>rx := s @ None # rest\<rparr>) = (at2, w2)"
        by (cases "invoke_cb cbs oob (at\<lparr>buffer := buf1\<rparr>) (w\<lparr>rx := s @ None # rest\<rparr>)") auto
      have r2: "rx w2 = s @ None # rest" using invoke_cb_quiet[OF "2.prems"(1) iv] by simp
      then have inv2: "\<exists>p. rx w2 = p @ None # rest \<and> None \<notin> set p" using s by blast
      show ?thesis
      proof (cases aborted)
        case True
        show ?thesis using rxw Oob_detected iv True r2 unfolding unf by simp
      next
        case False
        show ?thesis
          using "2.IH"(1)[OF rxw refl Oob_detected iv[symmetric] False "2.prems"(1) inv2]
            rxw Oob_detected iv False
          unfolding unf by simp
      qed
    next
      case (Line_matched buf2 data fmt)
      show ?thesis
        using "2.IH"(2)[OF rxw refl Line_matched "2.prems"(1)] inv rxw Line_matched
        unfolding unf by simp
    next
      case (Candidate_reset dp1 buf1)
      show ?thesis
        using "2.IH"(3)[OF rxw refl Candidate_reset "2.prems"(1)] inv rxw Candidate_reset
        unfolding unf by simp
    next
      case (Keep_reading j1 d1 dp1 buf1)
      show ?thesis
        using "2.IH"(4)[OF rxw refl Keep_reading "2.prems"(1)] inv rxw Keep_reading
        unfolding unf by simp
    qed
  qed
qed

subsection \<open>Verification of a line\<close>



subsection \<open>The pattern rewriter\<close>

text \<open>
  Claim C2. For every pattern the rewriter reads exactly the line of the pattern: the
  pattern up to its first line feed that does not come right after \<^verbatim>\<open>[^\<close>, or
  all of it. What it emits for that line, with \<^verbatim>\<open>%n\<close> after it, is the template
  the specification describes: every \<^verbatim>\<open>%\<close> not followed by \<^verbatim>\<open>%\<close> or
  \<^verbatim>\<open>*\<close> becomes \<^verbatim>\<open>%*\<close>. Where it fits the buffer it is staged as a C
  string at the front of it, and whatever is staged is that template.
  \<open>whole_line_wanted\<close> is set exactly when that line has a line feed not right after
  \<^verbatim>\<open>[^\<close>; then on a byte other than a line feed no verification is attempted,
  the count stays \<open>-1\<close> and no line is accepted, and in every other case the count is
  what the scan of the candidate against the staged template reports.
\<close>

theorem rewriter_matches_spec:
  "fst (rewrite_from response 0) @ ''%n'' = spec_template (spec_line response)
   \<and> fst (snd (rewrite_from response 0)) = length (spec_line response)
   \<and> take (length (spec_line response)) response = spec_line response
   \<and> snd (snd (rewrite_from response 0)) = spec_whole_line_wanted (spec_line response)
   \<and> (length (spec_template (spec_line response)) < AT_BUFFER_SIZE \<longrightarrow>
        (\<exists>buf1. stage_template response buf
                   = Inr (length (spec_line response),
                          length (spec_template (spec_line response)) + 1,
                          spec_whole_line_wanted (spec_line response), buf1)
               \<and> c_string_from buf1 0 = Inr (spec_template (spec_line response))))
   \<and> (\<forall>i2 offset whole2 buf1.
         stage_template response buf = Inr (i2, offset, whole2, buf1) \<longrightarrow>
         i2 = length (spec_line response)
         \<and> whole2 = spec_whole_line_wanted (spec_line response)
         \<and> c_string_from buf1 0 = Inr (spec_template (spec_line response))
         \<and> offset = length (spec_template (spec_line response)) + 1)
   \<and> (spec_whole_line_wanted (spec_line response) \<and> c \<noteq> LF \<longrightarrow>
        verify sscanf_n (spec_whole_line_wanted (spec_line response)) c offset0 buf2 = Inr (- 1)
        \<and> (\<forall>b d f. recv_step sscanf_n registry response (length (spec_line response)) offset0
                (spec_whole_line_wanted (spec_line response)) j dummy dummy_pos in_prev c buf2
              \<noteq> Line_matched b d f))
   \<and> (\<forall>dp fmt. \<not> (spec_whole_line_wanted (spec_line response) \<and> c \<noteq> LF)
          \<and> c_string_from buf2 offset0 = Inr dp \<and> c_string_from buf2 0 = Inr fmt \<longrightarrow>
        verify sscanf_n (spec_whole_line_wanted (spec_line response)) c offset0 buf2
          = Inr (case sscanf_n dp fmt of None \<Rightarrow> - 1 | Some n \<Rightarrow> n))"
proof -
  obtain out i whole where rw: "rewrite_from response 0 = (out, i, whole)"
    by (cases "rewrite_from response 0") auto
  let ?line = "spec_line response"
  have line: "take i response = ?line" by (rule rewrite_from_line[OF rw])
  have range: "i \<le> length response" using rewrite_from_range[OF rw] by simp
  have li: "length ?line = i" using range line[symmetric] by simp
  note ch = rewrite_from_out[OF rw, simplified]
  have ends: "c_at response i = NUL \<or> response ! (i - 1) = LF"
    using ch by (cases whole) (auto simp: bare_line_break_def)
  have eqm: "map (percent_rewritten (take i response)) [0..<i]
      = map (percent_rewritten response) [0..<i]"
    by (rule map_cong[OF refl]) (simp add: percent_rewritten_take[OF _ range ends])
  have lt: "length (take i response) = i" using range by simp
  have "out = concat (map (percent_rewritten response) [0..<i])" using ch by simp
  then have "out @ ''%n'' = spec_template (take i response)"
    unfolding spec_template_def lt eqm by simp
  then have out: "out @ ''%n'' = spec_template ?line" using line by simp
  have nonul: "NUL \<notin> set (spec_template ?line)"
  proof -
    have "NUL \<notin> set out"
      using ch percent_rewritten_no_NUL[of response] by auto
    then show ?thesis unfolding out[symmetric] by (simp add: NUL_def)
  qed
  have full: "out @ [CHR ''%'', CHR ''n'', NUL] = spec_template ?line @ [NUL]"
    using out by simp
  have c3: "whole = spec_whole_line_wanted ?line"
  proof (cases whole)
    case True
    then have "0 < i" "bare_line_break response (i - 1)" using ch by auto
    then have "i - 1 < length (take i response) \<and> bare_line_break (take i response) (i - 1)"
      using range by (simp add: bare_line_break_take)
    then show ?thesis using True unfolding spec_whole_line_wanted_def line by blast
  next
    case False
    then have "\<forall>k<i. \<not> bare_line_break response k" using ch by auto
    then have "\<forall>k<length (take i response). \<not> bare_line_break (take i response) k"
      using range by (simp add: bare_line_break_take)
    then show ?thesis using False unfolding spec_whole_line_wanted_def line by blast
  qed
  have staged: "i2 = i \<and> whole2 = whole
           \<and> c_string_from buf1 0 = Inr (spec_template ?line)
           \<and> offset = length (spec_template ?line) + 1"
    if stage: "stage_template response buf = Inr (i2, offset, whole2, buf1)"
    for i2 offset whole2 buf1
  proof -
    have same: "i2 = i" "whole2 = whole"
      and st: "store_bytes 0 (out @ [CHR ''%'', CHR ''n'', NUL]) buf = Inr buf1"
      and off: "offset = length out + 3"
      using stage rw by (auto simp: stage_template_def split: sum.splits)
    have len: "length (spec_template ?line) + 1 \<le> AT_BUFFER_SIZE"
      using store_bytes_content(1)[OF st] full by auto
    have c1: "c_string_from buf1 0 = Inr (spec_template ?line)"
    proof (rule c_string_from_content)
      show "\<forall>m<length (spec_template ?line). buf1 (0 + m) = spec_template ?line ! m"
        using store_bytes_content(2)[OF st] full
        by (metis (no_types, lifting) add.commute add_cancel_left_right length_append
            less_add_one nth_append trans_less_add1)
      show "NUL \<notin> set (spec_template ?line)" by (rule nonul)
      show "buf1 (0 + length (spec_template ?line)) = NUL"
        using store_bytes_content(2)[OF st, of "length (spec_template ?line)"] full
        by (simp add: nth_append)
      show "0 + length (spec_template ?line) < AT_BUFFER_SIZE" using len by simp
    qed
    have c2: "offset = length (spec_template ?line) + 1"
      using off out[symmetric] by simp
    show ?thesis using same c1 c2 by simp
  qed
  have fits: "\<exists>buf1. stage_template response buf
                   = Inr (length ?line, length (spec_template ?line) + 1,
                          spec_whole_line_wanted ?line, buf1)
               \<and> c_string_from buf1 0 = Inr (spec_template ?line)"
    if room: "length (spec_template ?line) < AT_BUFFER_SIZE"
  proof -
    have "length (spec_template ?line) = length out + 2"
      using arg_cong[OF out, of length] by simp
    then have "0 + length (out @ [CHR ''%'', CHR ''n'', NUL]) \<le> AT_BUFFER_SIZE"
      using room by simp
    then obtain b where b: "store_bytes 0 (out @ [CHR ''%'', CHR ''n'', NUL]) buf = Inr b"
      using store_bytes_succeeds by blast
    have st: "stage_template response buf = Inr (i, length out + 3, whole, b)"
      by (simp add: stage_template_def rw b)
    show ?thesis using staged[OF st] st li c3 by auto
  qed
  have c4: "whole \<and> c \<noteq> LF \<longrightarrow>
          verify sscanf_n whole c offset0 buf2 = Inr (- 1)
          \<and> (\<forall>b d f. recv_step sscanf_n registry response i offset0 whole j dummy
                  dummy_pos in_prev c buf2 \<noteq> Line_matched b d f)"
    by (auto simp: verify_def recv_step_def split: sum.splits option.splits dest: accumulate_grows)
  have c5: "\<forall>dp fmt. \<not> (whole \<and> c \<noteq> LF)
          \<and> c_string_from buf2 offset0 = Inr dp \<and> c_string_from buf2 0 = Inr fmt \<longrightarrow>
        verify sscanf_n whole c offset0 buf2
          = Inr (case sscanf_n dp fmt of None \<Rightarrow> - 1 | Some n \<Rightarrow> n)"
    by (auto simp: verify_def)
  have r1: "fst (rewrite_from response 0) @ ''%n'' = spec_template ?line" using rw out by simp
  have r2: "fst (snd (rewrite_from response 0)) = length ?line" using rw li by simp
  have r3: "take (length ?line) response = ?line" using li line by simp
  have r4: "snd (snd (rewrite_from response 0)) = spec_whole_line_wanted ?line"
    using rw c3 by simp
  show ?thesis
    using r1 r2 r3 r4 fits staged c4 c5 unfolding li c3 by blast
qed

theorem rewriter_matches_spec_witness:
  "spec_line csq_pattern = ''+CSQ: %d'' @ [LF]
   \<and> rewrite_from csq_pattern 0 = (''+CSQ: %*d'' @ [LF], 9, True)
   \<and> spec_line rest_of_line_pattern = ''+X:%[^'' @ [LF] @ '']'' @ [LF]
   \<and> rewrite_from rest_of_line_pattern 0 = (''+X:%*[^'' @ [LF] @ '']'' @ [LF], 9, True)
   \<and> (\<exists>buf1. stage_template csq_pattern (\<lambda>_. NUL) = Inr (9, 13, True, buf1)
         \<and> c_string_from buf1 0 = Inr (''+CSQ: %*d'' @ [LF] @ ''%n'')
         \<and> verify sscanf_literal True (CHR ''+'') 13 buf1 = Inr (- 1))
   \<and> verify sscanf_literal True LF 6 ok_line_received = Inr 3"
proof -
  have l1: "spec_line csq_pattern = ''+CSQ: %d'' @ [LF]" by (simp add: spec_defs)
  have l2: "spec_line rest_of_line_pattern = ''+X:%[^'' @ [LF] @ '']'' @ [LF]"
    by (simp add: spec_defs)
  have l3: "spec_line ok_line = ok_line" by (simp add: spec_defs)
  have t1: "spec_template (spec_line csq_pattern) = ''+CSQ: %*d'' @ [LF] @ ''%n''"
    unfolding l1 by (simp add: spec_defs)
  have w1: "spec_whole_line_wanted (spec_line csq_pattern)"
    unfolding l1 spec_whole_line_wanted_def
    by (rule exI[of _ 8]) (simp add: bare_line_break_def)
  have t2: "spec_template (spec_line rest_of_line_pattern)
      = ''+X:%*[^'' @ [LF] @ '']'' @ [LF] @ ''%n''"
    unfolding l2 by (simp add: spec_defs)
  have w2: "spec_whole_line_wanted (spec_line rest_of_line_pattern)"
    unfolding l2 spec_whole_line_wanted_def
    by (rule exI[of _ 8]) (simp add: bare_line_break_def LF_def)
  have w3: "spec_whole_line_wanted (spec_line ok_line)"
    unfolding l3 spec_whole_line_wanted_def
    by (rule exI[of _ 2]) (simp add: bare_line_break_def ok_line_def)
  have n1: "length (spec_line csq_pattern) = 9" unfolding l1 by simp
  have n2: "length (spec_line rest_of_line_pattern) = 9" unfolding l2 by simp
  have cl: "CHR ''+'' \<noteq> LF" by (simp add: LF_def)
  have room: "length (spec_template (spec_line csq_pattern)) < AT_BUFFER_SIZE"
    unfolding t1 by (simp add: AT_BUFFER_SIZE_def)
  note a = rewriter_matches_spec[where response=csq_pattern and buf="\<lambda>_. NUL"
      and c="CHR ''+''" and sscanf_n=sscanf_literal and ?offset0.0=13
      and registry="[] :: nat oob list" and j=0 and dummy=0 and dummy_pos="[]" and in_prev=NUL]
  note b = rewriter_matches_spec[where response=rest_of_line_pattern and buf="\<lambda>_. NUL"
      and c=LF and sscanf_n=sscanf_literal and ?offset0.0=0 and ?buf2.0="\<lambda>_. NUL"
      and registry="[] :: nat oob list" and j=0 and dummy=0 and dummy_pos="[]" and in_prev=NUL]
  note c = rewriter_matches_spec[where response=ok_line and c=LF and sscanf_n=sscanf_literal
      and ?offset0.0=6 and ?buf2.0=ok_line_received and buf="\<lambda>_. NUL"
      and registry="[] :: nat oob list" and j=0 and dummy=0 and dummy_pos="[]" and in_prev=NUL]
  have a1: "fst (rewrite_from csq_pattern 0) @ ''%n'' = ''+CSQ: %*d'' @ [LF] @ ''%n''"
    "fst (snd (rewrite_from csq_pattern 0)) = 9" "snd (snd (rewrite_from csq_pattern 0))"
    using a[where ?buf2.0="\<lambda>_. NUL"] t1 w1 n1 by metis+
  have r1: "rewrite_from csq_pattern 0 = (''+CSQ: %*d'' @ [LF], 9, True)"
    using a1 by (cases "rewrite_from csq_pattern 0") simp
  have b1: "fst (rewrite_from rest_of_line_pattern 0) @ ''%n''
      = ''+X:%*[^'' @ [LF] @ '']'' @ [LF] @ ''%n''"
    "fst (snd (rewrite_from rest_of_line_pattern 0)) = 9"
    "snd (snd (rewrite_from rest_of_line_pattern 0))"
    using b t2 w2 n2 by metis+
  have r2: "rewrite_from rest_of_line_pattern 0 = (''+X:%*[^'' @ [LF] @ '']'' @ [LF], 9, True)"
    using b1 by (cases "rewrite_from rest_of_line_pattern 0") simp
  have "\<exists>buf1. stage_template csq_pattern (\<lambda>_. NUL)
                   = Inr (length (spec_line csq_pattern),
                          length (spec_template (spec_line csq_pattern)) + 1,
                          spec_whole_line_wanted (spec_line csq_pattern), buf1)
               \<and> c_string_from buf1 0 = Inr (spec_template (spec_line csq_pattern))"
    using a[where ?buf2.0="\<lambda>_. NUL"] room by blast
  then obtain buf1 where st: "stage_template csq_pattern (\<lambda>_. NUL) = Inr (9, 13, True, buf1)"
    and cs: "c_string_from buf1 0 = Inr (''+CSQ: %*d'' @ [LF] @ ''%n'')"
    unfolding n1 t1 using w1 by auto
  have "spec_whole_line_wanted (spec_line csq_pattern) \<and> CHR ''+'' \<noteq> LF \<longrightarrow>
      verify sscanf_literal (spec_whole_line_wanted (spec_line csq_pattern)) (CHR ''+'') 13 buf1
        = Inr (- 1)"
    using a[where ?buf2.0=buf1] by blast
  then have v: "verify sscanf_literal True (CHR ''+'') 13 buf1 = Inr (- 1)"
    using w1 cl by simp
  have s1: "c_string_from ok_line_received 6 = Inr (''OK'' @ [LF])"
    "c_string_from ok_line_received 0 = Inr (''OK'' @ [LF] @ ''%n'')"
    by (simp_all add: ok_line_received_def c_string_from.simps NUL_def LF_def AT_BUFFER_SIZE_def)
  have sc: "sscanf_literal (''OK'' @ [LF]) (''OK'' @ [LF] @ ''%n'') = Some 3"
    by (simp add: sscanf_literal_def isspace_def LF_def)
  have "\<not> (spec_whole_line_wanted (spec_line ok_line) \<and> LF \<noteq> LF)
          \<and> c_string_from ok_line_received 6 = Inr (''OK'' @ [LF])
          \<and> c_string_from ok_line_received 0 = Inr (''OK'' @ [LF] @ ''%n'') \<longrightarrow>
        verify sscanf_literal (spec_whole_line_wanted (spec_line ok_line)) LF 6 ok_line_received
          = Inr (case sscanf_literal (''OK'' @ [LF]) (''OK'' @ [LF] @ ''%n'') of
                   None \<Rightarrow> - 1 | Some n \<Rightarrow> n)"
    using c by blast
  then have v2: "verify sscanf_literal True LF 6 ok_line_received = Inr 3"
    using w3 s1 sc by simp
  show ?thesis using l1 r1 l2 r2 st cs v v2 by blast
qed

subsection \<open>Out-of-band prefixes during a receive\<close>

text \<open>
  Claim C3, as the code has it. When the candidate becomes exactly the bytes of a
  registered prefix, the entry detected is the first entry of the registry with that
  prefix. If that entry has a callback it is called once, and no other callback is
  called; if it has none, nothing is called. The receive goes on from the label
  \<^verbatim>\<open>restart\<close> with the pattern cursor where it is: the template of the current line,
  the first line not yet matched, is staged again and the candidate is empty. Lines
  already matched are not matched again.
\<close>

theorem oob_restarts_at_current_line:
  assumes rxw: "rx w = Some c # rest"
    and acc: "accumulate offset c in_prev j dummy dummy_pos (buffer at)
                = Inr (j1, dummy1, dummy_pos1, buf1)"
    and reg: "\<forall>e \<in> set (oobs at). oob_len e = length (oob_prefix e)"
    and P: "e \<in> set (oobs at)"
    and cand: "map buf1 [offset..<offset + j1] = oob_prefix e"
  shows "\<exists>e'. List.find (\<lambda>x. oob_prefix x = oob_prefix e) (oobs at) = Some e'
          \<and> e' \<in> set (oobs at) \<and> oob_prefix e' = oob_prefix e
          \<and> oob_scan (oobs at) buf1 offset j1 = Some e'
          \<and> recv_step sscanf_n (oobs at) response i offset whole_line_wanted j dummy dummy_pos
               in_prev c (buffer at) = Oob_detected e' buf1
          \<and> recv_loop sscanf_n cbs response i offset whole_line_wanted j dummy dummy_pos
               in_prev False at w
             = (case oob_cb e' of
                  None \<Rightarrow>
                    recv_lines sscanf_n cbs response c False (at\<lparr>buffer := buf1\<rparr>)
                      (w\<lparr>rx := rest\<rparr>)
                | Some h \<Rightarrow>
                    recv_lines sscanf_n cbs response c False
                      (fst (cbs h (at\<lparr>buffer := buf1\<rparr>) rest))
                      (w\<lparr>rx := drop (snd (cbs h (at\<lparr>buffer := buf1\<rparr>) rest)) rest,
                         trace := trace w @ [Oob_called h]\<rparr>))
          \<and> recv_loop sscanf_n cbs response i offset whole_line_wanted j dummy dummy_pos
               in_prev False at w
             = recv_lines sscanf_n cbs response c False
                 (fst (invoke_cb cbs e' (at\<lparr>buffer := buf1\<rparr>) (w\<lparr>rx := rest\<rparr>)))
                 (snd (invoke_cb cbs e' (at\<lparr>buffer := buf1\<rparr>) (w\<lparr>rx := rest\<rparr>)))
          \<and> trace (snd (invoke_cb cbs e' (at\<lparr>buffer := buf1\<rparr>) (w\<lparr>rx := rest\<rparr>)))
             = trace w @ (case oob_cb e' of None \<Rightarrow> [] | Some h \<Rightarrow> [Oob_called h])
          \<and> (\<forall>at2 w2 i2 offset2 whole2 buf2.
                c_at response 0 \<noteq> NUL
                \<and> stage_template response (buffer at2) = Inr (i2, offset2, whole2, buf2) \<longrightarrow>
                recv_lines sscanf_n cbs response c False at2 w2
                  = recv_loop sscanf_n cbs response i2 offset2 whole2 0 0 (replicate 20 0)
                      c False (at2\<lparr>buffer := buf2\<rparr>) w2)"
proof -
  have scan: "oob_scan (oobs at) buf1 offset j1
      = List.find (\<lambda>x. oob_prefix x = oob_prefix e) (oobs at)"
    using oob_scan_is_find[OF reg, of buf1 offset j1] cand by simp
  obtain e' where f: "List.find (\<lambda>x. oob_prefix x = oob_prefix e) (oobs at) = Some e'"
    using P by (cases "List.find (\<lambda>x. oob_prefix x = oob_prefix e) (oobs at)")
      (auto simp: find_None_iff)
  have mem: "e' \<in> set (oobs at)" "oob_prefix e' = oob_prefix e"
    using f by (auto simp: find_Some_iff)
  have step: "recv_step sscanf_n (oobs at) response i offset whole_line_wanted j dummy dummy_pos
         in_prev c (buffer at) = Oob_detected e' buf1"
    by (simp add: recv_step_def acc scan f)
  note pass = recv_loop_oob_restart[OF rxw step, of cbs]
  have loop: "recv_loop sscanf_n cbs response i offset whole_line_wanted j dummy dummy_pos
               in_prev False at w
             = recv_lines sscanf_n cbs response c False
                 (fst (invoke_cb cbs e' (at\<lparr>buffer := buf1\<rparr>) (w\<lparr>rx := rest\<rparr>)))
                 (snd (invoke_cb cbs e' (at\<lparr>buffer := buf1\<rparr>) (w\<lparr>rx := rest\<rparr>)))"
    by (simp add: recv_loop.simps[of sscanf_n cbs response i offset whole_line_wanted j dummy
          dummy_pos in_prev False at w] rxw step split: prod.splits)
  have tr: "trace (snd (invoke_cb cbs e' (at\<lparr>buffer := buf1\<rparr>) (w\<lparr>rx := rest\<rparr>)))
             = trace w @ (case oob_cb e' of None \<Rightarrow> [] | Some h \<Rightarrow> [Oob_called h])"
    by (simp add: invoke_cb_def split: option.splits prod.splits)
  have again: "\<forall>at2 w2 i2 offset2 whole2 buf2.
                c_at response 0 \<noteq> NUL
                \<and> stage_template response (buffer at2) = Inr (i2, offset2, whole2, buf2) \<longrightarrow>
                recv_lines sscanf_n cbs response c False at2 w2
                  = recv_loop sscanf_n cbs response i2 offset2 whole2 0 0 (replicate 20 0)
                      c False (at2\<lparr>buffer := buf2\<rparr>) w2"
    by (simp add: recv_lines.simps)
  show ?thesis
    using f mem scan step pass loop tr again by (intro exI[of _ e']) simp
qed

theorem oob_restarts_at_current_line_witness:
  "fst (recv_loop sscanf_literal quiet_handlers ''B'' 1 4 False 1 0 (replicate 20 0) (CHR ''+'')
          False (plus_x_parser\<lparr>buffer := b_staged(4 := CHR ''+'')\<rparr>) (script ''XB'')) = Success
   \<and> trace (snd (snd (recv_loop sscanf_literal quiet_handlers ''B'' 1 4 False 1 0 (replicate 20 0)
          (CHR ''+'') False (plus_x_parser\<lparr>buffer := b_staged(4 := CHR ''+'')\<rparr>) (script ''XB''))))
      = [Oob_called 7, Captured ''B'' ''B'']
   \<and> List.find (\<lambda>x. oob_prefix x = ''+X'') (oobs shadowed_parser)
      = Some \<lparr>oob_len = 2, oob_prefix = ''+X'', oob_cb = None\<rparr>
   \<and> fst (recv_loop sscanf_literal quiet_handlers ''B'' 1 4 False 1 0 (replicate 20 0) (CHR ''+'')
          False (shadowed_parser\<lparr>buffer := b_staged(4 := CHR ''+'')\<rparr>) (script ''XB'')) = Success
   \<and> trace (snd (snd (recv_loop sscanf_literal quiet_handlers ''B'' 1 4 False 1 0 (replicate 20 0)
          (CHR ''+'') False (shadowed_parser\<lparr>buffer := b_staged(4 := CHR ''+'')\<rparr>) (script ''XB''))))
      = [Captured ''B'' ''B'']"
proof -
  let ?at = "plus_x_parser\<lparr>buffer := b_staged(4 := CHR ''+'')\<rparr>"
  let ?as = "shadowed_parser\<lparr>buffer := b_staged(4 := CHR ''+'')\<rparr>"
  let ?b1 = "b_staged(4 := CHR ''+'', 5 := CHR ''X'', 6 := NUL)"
  let ?e = "\<lparr>oob_len = 2, oob_prefix = ''+X'', oob_cb = Some (7 :: nat)\<rparr>"
  have rxw: "rx (script ''XB'') = Some (CHR ''X'') # [Some (CHR ''B'')]"
    by (simp add: script_def bytes_def)
  have acc: "accumulate 4 (CHR ''X'') (CHR ''+'') 1 0 (replicate 20 0) (buffer ?at)
      = Inr (2, 0, replicate 20 0, ?b1)"
    by (simp add: run_defs)
  have accs: "accumulate 4 (CHR ''X'') (CHR ''+'') 1 0 (replicate 20 0) (buffer ?as)
      = Inr (2, 0, replicate 20 0, ?b1)"
    by (simp add: run_defs)
  have reg: "\<forall>e \<in> set (oobs ?at). oob_len e = length (oob_prefix e)"
    by (simp add: run_defs)
  have regs: "\<forall>e \<in> set (oobs ?as). oob_len e = length (oob_prefix e)"
    by (simp add: run_defs shadowed_parser_def)
  have P: "?e \<in> set (oobs ?at)" by (simp add: run_defs)
  have Ps: "?e \<in> set (oobs ?as)" by (simp add: run_defs shadowed_parser_def)
  have cand: "map ?b1 [4..<4 + 2] = oob_prefix ?e" by (simp add: run_defs)
  have one: "fst (recv_loop sscanf_literal quiet_handlers ''B'' 1 4 False 1 0 (replicate 20 0)
          (CHR ''+'') False ?at (script ''XB'')) = Success
     \<and> trace (snd (snd (recv_loop sscanf_literal quiet_handlers ''B'' 1 4 False 1 0
          (replicate 20 0) (CHR ''+'') False ?at (script ''XB''))))
        = [Oob_called 7, Captured ''B'' ''B'']"
    using oob_restarts_at_current_line[OF rxw acc reg P cand, of sscanf_literal "''B''" 1 False
        quiet_handlers]
    by (simp add: run_defs)
  have two: "List.find (\<lambda>x. oob_prefix x = ''+X'') (oobs shadowed_parser)
        = Some \<lparr>oob_len = 2, oob_prefix = ''+X'', oob_cb = None\<rparr>
     \<and> fst (recv_loop sscanf_literal quiet_handlers ''B'' 1 4 False 1 0 (replicate 20 0)
          (CHR ''+'') False ?as (script ''XB'')) = Success
     \<and> trace (snd (snd (recv_loop sscanf_literal quiet_handlers ''B'' 1 4 False 1 0
          (replicate 20 0) (CHR ''+'') False ?as (script ''XB''))))
        = [Captured ''B'' ''B'']"
    using oob_restarts_at_current_line[OF rxw accs regs Ps cand, of sscanf_literal "''B''" 1 False
        quiet_handlers]
    by (simp add: run_defs shadowed_parser_def)
  show ?thesis using one two by blast
qed

text \<open>
  The claim as stated says that matching restarts from the first pattern line. With the
  pattern \<^verbatim>\<open>A\nB\<close> and the bytes \<^verbatim>\<open>A\n+XB\<close> the receive succeeds: after the
  callback only the line \<^verbatim>\<open>B\<close> is matched. Started from the first line on what is
  left after the callback, the byte \<^verbatim>\<open>B\<close>, the receive times out. It also says
  that the handler of the prefix is invoked once. When the prefix is registered without
  a callback nothing is invoked, and when it is registered twice only the callback of
  the later registration, 9, is invoked: callback 7 of the earlier one is not.
\<close>

theorem oob_restart_counterexample:
  "fst (ATCmdParser_vrecv sscanf_literal quiet_handlers plus_x_parser
          (script (''A'' @ [LF] @ ''+XB'')) two_lines) = Success
   \<and> snd (snd (ATCmdParser_vrecv sscanf_literal quiet_handlers plus_x_parser
          (script (''A'' @ [LF] @ ''+XB'')) two_lines))
      = \<lparr>rx = [], readable = True,
          trace = [Captured (''A'' @ [LF]) (''A'' @ [LF]), Oob_called 7, Captured ''B'' ''B'']\<rparr>
   \<and> fst (ATCmdParser_vrecv sscanf_literal quiet_handlers plus_x_parser (script ''B'') two_lines)
      = Timeout
   \<and> oobs null_cb_parser = [\<lparr>oob_len = 2, oob_prefix = ''+X'', oob_cb = None\<rparr>]
   \<and> fst (ATCmdParser_vrecv sscanf_literal quiet_handlers null_cb_parser (script ''+XB'') ''B'')
      = Success
   \<and> snd (snd (ATCmdParser_vrecv sscanf_literal quiet_handlers null_cb_parser
          (script ''+XB'') ''B''))
      = \<lparr>rx = [], readable = True, trace = [Captured ''B'' ''B'']\<rparr>
   \<and> oobs twice_parser = [\<lparr>oob_len = 2, oob_prefix = ''+X'', oob_cb = Some 9\<rparr>,
                          \<lparr>oob_len = 2, oob_prefix = ''+X'', oob_cb = Some 7\<rparr>]
   \<and> fst (ATCmdParser_vrecv sscanf_literal quiet_handlers twice_parser (script ''+XB'') ''B'')
      = Success
   \<and> trace (snd (snd (ATCmdParser_vrecv sscanf_literal quiet_handlers twice_parser
          (script ''+XB'') ''B'')))
      = [Oob_called 9, Captured ''B'' ''B'']"
  by (simp add: run_defs two_lines_def null_cb_parser_def twice_parser_def)

subsection \<open>Abort\<close>

text \<open>
  Claim C4 says that a callback which signals an abort makes the receive return failure
  at once. In the code \<^verbatim>\<open>_aborted\<close> is a local variable of \<^verbatim>\<open>ATCmdParser_vrecv\<close>,
  set to false at the label \<^verbatim>\<open>restart\<close> and written nowhere else, and a callback
  receives the session only. So the \<^verbatim>\<open>return false\<close> under \<^verbatim>\<open>if (_aborted)\<close> is
  never reached, whatever the callbacks do: with the prefix \<^verbatim>\<open>+X\<close> registered and the
  bytes \<^verbatim>\<open>+XOK\<close>, a receive of \<^verbatim>\<open>OK\<close> calls the callback, restarts and succeeds.
\<close>

theorem abort_branch_unreachable:
  "fst (ATCmdParser_vrecv sscanf_n cbs at w response) \<noteq> Aborted
   \<and> fst (ATCmdParser_vrecv sscanf_literal cbs0 plus_x_parser (script ''+XOK'') ''OK'')
       \<noteq> Aborted
   \<and> ATCmdParser_vrecv sscanf_literal quiet_handlers plus_x_parser (script ''+XOK'') ''OK''
      = (Success, plus_x_parser\<lparr>buffer := ok_staged(0 := CHR ''O'', 1 := CHR ''K'', 2 := NUL,
                      5 := CHR ''O'', 6 := CHR ''K'', 7 := NUL)\<rparr>,
         \<lparr>rx = [], readable = True, trace = [Oob_called 7, Captured ''OK'' ''OK'']\<rparr>)"
proof -
  have a: "fst (ATCmdParser_vrecv sscanf_n cbs at w response) \<noteq> Aborted"
    using never_aborted(1)[where aborted=False] by (simp add: ATCmdParser_vrecv_def)
  have a0: "fst (ATCmdParser_vrecv sscanf_literal cbs0 plus_x_parser (script ''+XOK'') ''OK'')
       \<noteq> Aborted"
    using never_aborted(1)[where aborted=False] by (simp add: ATCmdParser_vrecv_def)
  have b: "ATCmdParser_vrecv sscanf_literal quiet_handlers plus_x_parser (script ''+XOK'') ''OK''
      = (Success, plus_x_parser\<lparr>buffer := ok_staged(0 := CHR ''O'', 1 := CHR ''K'', 2 := NUL,
                      5 := CHR ''O'', 6 := CHR ''K'', 7 := NUL)\<rparr>,
         \<lparr>rx = [], readable = True, trace = [Oob_called 7, Captured ''OK'' ''OK'']\<rparr>)"
    by (simp add: run_defs fun_eq_iff)
  show ?thesis using a a0 b by blast
qed

subsection \<open>The capacity of the buffer\<close>

text \<open>
  Claim C5 says that no write of the receive loop lands at or beyond
  \<^verbatim>\<open>AT_BUFFER_SIZE\<close>. The test \<^verbatim>\<open>j + 1 >= AT_BUFFER_SIZE - offset\<close> leaves room
  for one byte and the terminator, and a pass that injects the filler writes three
  bytes. With the pattern \<^verbatim>\<open>OK\n\<close> (offset 6), 2039 bytes other than a line feed, a
  colon and a line feed, the filler goes to index 2046, the line feed to index 2047 and
  the terminator to index 2048, whatever \<^verbatim>\<open>sscanf\<close> and the callbacks do.
\<close>

theorem filler_overruns_buffer:
  "fst (ATCmdParser_vrecv sscanf_n cbs idle_parser
          \<lparr>rx = overlong_noise, readable = True, trace = []\<rparr> ok_line)
     = Fault (Buffer_overrun AT_BUFFER_SIZE)"
proof -
  let ?w = "\<lparr>rx = [], readable = True, trace = []\<rparr> :: nat world"
  obtain b0 where stage: "stage_template ok_line (buffer idle_parser) = Inr (3, 6, True, b0)"
    by (simp add: ok_line_def stage_template_def rewrite_from.simps c_at_def NUL_def LF_def store_def
        AT_BUFFER_SIZE_def)
  let ?at0 = "idle_parser\<lparr>buffer := b0\<rparr>"
  have o: "oobs ?at0 = []" by (simp add: idle_parser_def)
  have c: "CHR '':'' \<noteq> LF" by (simp add: LF_def)
  have last: "\<And>b. recv_step sscanf_n [] ok_line 3 6 True 2040 0 (replicate 20 0)
       (CHR '':'') LF b = (Step_fault (Buffer_overrun 2048) :: nat step)"
    by (simp add: recv_step_def accumulate_def append_char_def store_def AT_BUFFER_SIZE_def)
  have final: "\<And>b. fst (recv_loop sscanf_n cbs ok_line 3 6 True 2040 0 (replicate 20 0) (CHR '':'')
          False (?at0\<lparr>buffer := b\<rparr>) (?w\<lparr>rx := [Some LF]\<rparr>))
       = Fault (Buffer_overrun 2048)"
    by (simp add: recv_loop.simps[of _ _ _ _ _ _ 2040] idle_parser_def last)
  have colon: "\<And>b. fst (recv_loop sscanf_n cbs ok_line 3 6 True 2039 0 (replicate 20 0) (CHR ''a'')
          False (?at0\<lparr>buffer := b\<rparr>) (?w\<lparr>rx := [Some (CHR '':''), Some LF]\<rparr>))
       = Fault (Buffer_overrun 2048)"
  proof -
    fix b
    obtain b2 where "recv_loop sscanf_n cbs ok_line 3 6 True 2039 0 (replicate 20 0) (CHR ''a'')
          False (?at0\<lparr>buffer := b\<rparr>) (?w\<lparr>rx := Some (CHR '':'') # [Some LF]\<rparr>)
      = recv_loop sscanf_n cbs ok_line 3 6 True (2039 + 1) 0 (replicate 20 0) (CHR '':'')
          False (?at0\<lparr>buffer := b, buffer := b2\<rparr>) (?w\<lparr>rx := [Some LF]\<rparr>)"
      using quiet_loop_step[OF c, where offset=6 and j=2039 and at="?at0\<lparr>buffer := b\<rparr>"
        and sscanf_n=sscanf_n and cbs=cbs and response=ok_line and i=3 and dummy=0
        and dummy_pos="replicate 20 0" and in_prev="CHR ''a''" and aborted=False
        and w="?w" and later="[Some LF]"] o
      by (auto simp: AT_BUFFER_SIZE_def)
    then show "fst (recv_loop sscanf_n cbs ok_line 3 6 True 2039 0 (replicate 20 0) (CHR ''a'')
          False (?at0\<lparr>buffer := b\<rparr>) (?w\<lparr>rx := [Some (CHR '':''), Some LF]\<rparr>))
       = Fault (Buffer_overrun 2048)"
      using final[of b2] by simp
  qed
  have noise: "fst (recv_loop sscanf_n cbs ok_line 3 6 True 0 0 (replicate 20 0) NUL False ?at0
         (?w\<lparr>rx := overlong_noise\<rparr>)) = Fault (Buffer_overrun 2048)"
  proof -
    obtain b1 where "recv_loop sscanf_n cbs ok_line 3 6 True 0 0 (replicate 20 0) NUL False ?at0
         (?w\<lparr>rx := map Some (replicate 2039 (CHR ''a'')) @ [Some (CHR '':''), Some LF]\<rparr>)
      = recv_loop sscanf_n cbs ok_line 3 6 True (0 + 2039) 0 (replicate 20 0) (CHR ''a'')
          False (?at0\<lparr>buffer := b1\<rparr>) (?w\<lparr>rx := [Some (CHR '':''), Some LF]\<rparr>)"
      using noise_accumulates[where offset=6 and j=0 and n=2039 and at="?at0" and sscanf_n=sscanf_n
        and cbs=cbs and response=ok_line and i=3 and dummy=0 and dummy_pos="replicate 20 0"
        and in_prev=NUL and aborted=False and w="?w" and later="[Some (CHR '':''), Some LF]"] o
      by (auto simp: AT_BUFFER_SIZE_def)
    then show ?thesis using colon[of b1] by (simp add: overlong_noise_def)
  qed
  have nz: "c_at ok_line 0 \<noteq> NUL" by (simp add: ok_line_def c_at_def NUL_def)
  have "fst (ATCmdParser_vrecv sscanf_n cbs idle_parser (?w\<lparr>rx := overlong_noise\<rparr>) ok_line)
      = Fault (Buffer_overrun 2048)"
    using noise nz by (simp add: ATCmdParser_vrecv_def recv_lines.simps stage)
  then show ?thesis by (simp add: AT_BUFFER_SIZE_def)
qed

subsection \<open>A line that fails\<close>

text \<open>
  Claim C6. When a pass ends without a registered prefix and without a match, and the
  byte was a line feed or the capacity test fires, the candidate length and the filler
  count are set to zero and the loop reads on. A receive that returns false has either
  left by the abort exit or by a read that timed out: if every read of the script
  delivers a byte, it returns false only after the script is used up.
\<close>

theorem failed_line_resets_and_continues:
  assumes rxw: "rx w = Some c # rest"
    and acc: "accumulate offset c in_prev j dummy dummy_pos (buffer at)
                = Inr (j1, dummy1, dummy_pos1, buf1)"
    and no_oob: "oob_scan (oobs at) buf1 offset j1 = None"
    and ver: "verify sscanf_n whole_line_wanted c offset buf1 = Inr count"
    and no_match: "count \<noteq> int j1"
    and boundary: "c = LF \<or> j1 + 1 \<ge> AT_BUFFER_SIZE - offset"
  shows "recv_step sscanf_n (oobs at) response i offset whole_line_wanted j dummy dummy_pos
           in_prev c (buffer at) = Candidate_reset dummy_pos1 buf1
     \<and> recv_loop sscanf_n cbs response i offset whole_line_wanted j dummy dummy_pos
           in_prev aborted at w
         = recv_loop sscanf_n cbs response i offset whole_line_wanted 0 0 dummy_pos1
             c aborted (at\<lparr>buffer := buf1\<rparr>) (w\<lparr>rx := rest\<rparr>)
     \<and> (None \<notin> set (rx w0)
          \<and> returned (fst (ATCmdParser_vrecv sscanf_n cbs at0 w0 response0)) = Some False \<longrightarrow>
          fst (ATCmdParser_vrecv sscanf_n cbs at0 w0 response0) = Aborted
          \<or> (fst (ATCmdParser_vrecv sscanf_n cbs at0 w0 response0) = Timeout
              \<and> rx (snd (snd (ATCmdParser_vrecv sscanf_n cbs at0 w0 response0))) = []))"
proof -
  have step: "recv_step sscanf_n (oobs at) response i offset whole_line_wanted j dummy dummy_pos
           in_prev c (buffer at) = Candidate_reset dummy_pos1 buf1"
    using no_match boundary by (simp add: recv_step_def acc no_oob ver)
  have loop: "recv_loop sscanf_n cbs response i offset whole_line_wanted j dummy dummy_pos
           in_prev aborted at w
         = recv_loop sscanf_n cbs response i offset whole_line_wanted 0 0 dummy_pos1
             c aborted (at\<lparr>buffer := buf1\<rparr>) (w\<lparr>rx := rest\<rparr>)"
    by (simp add: recv_loop.simps[of sscanf_n cbs response i offset whole_line_wanted j dummy
          dummy_pos in_prev aborted at w] rxw step)
  have exits: "\<And>x. returned x = Some False \<Longrightarrow> x = Aborted \<or> x = Timeout"
    by (case_tac x) auto
  have whole: "None \<notin> set (rx w0)
          \<and> returned (fst (ATCmdParser_vrecv sscanf_n cbs at0 w0 response0)) = Some False \<longrightarrow>
          fst (ATCmdParser_vrecv sscanf_n cbs at0 w0 response0) = Aborted
          \<or> (fst (ATCmdParser_vrecv sscanf_n cbs at0 w0 response0) = Timeout
              \<and> rx (snd (snd (ATCmdParser_vrecv sscanf_n cbs at0 w0 response0))) = [])"
    using timeout_only_when_silent(1)[of w0 sscanf_n cbs response0 NUL False at0] exits
    unfolding ATCmdParser_vrecv_def by blast
  show ?thesis using step loop whole by blast
qed

theorem failed_line_resets_and_continues_witness:
  "recv_step sscanf_literal ([] :: nat oob list) ''OK'' 2 5 False 1 0 (replicate 20 0)
      (CHR ''a'') LF (ok_staged(5 := CHR ''a''))
     = Candidate_reset (replicate 20 0) (ok_staged(5 := CHR ''a'', 6 := LF, 7 := NUL))
   \<and> recv_loop sscanf_literal quiet_handlers ''OK'' 2 5 False 1 0 (replicate 20 0) (CHR ''a'')
        False (idle_parser\<lparr>buffer := ok_staged(5 := CHR ''a'')\<rparr>) (script ([LF] @ ''OK''))
     = recv_loop sscanf_literal quiet_handlers ''OK'' 2 5 False 0 0 (replicate 20 0) LF
        False (idle_parser\<lparr>buffer := ok_staged(5 := CHR ''a'', 6 := LF, 7 := NUL)\<rparr>)
        (script ''OK'')
   \<and> fst (ATCmdParser_vrecv sscanf_literal quiet_handlers idle_parser
          (script (''a'' @ [LF] @ ''OK'')) ''OK'') = Success
   \<and> fst (ATCmdParser_vrecv sscanf_literal quiet_handlers idle_parser
          (script (''a'' @ [LF])) ''OK'') = Timeout
   \<and> rx (snd (snd (ATCmdParser_vrecv sscanf_literal quiet_handlers idle_parser
          (script (''a'' @ [LF])) ''OK''))) = []"
proof -
  let ?at = "idle_parser\<lparr>buffer := ok_staged(5 := CHR ''a'')\<rparr>"
  let ?b1 = "ok_staged(5 := CHR ''a'', 6 := LF, 7 := NUL)"
  have rxw: "rx (script ([LF] @ ''OK'')) = Some LF # bytes ''OK''"
    by (simp add: script_def bytes_def)
  have acc: "accumulate 5 LF (CHR ''a'') 1 0 (replicate 20 0) (buffer ?at)
      = Inr (2, 0, replicate 20 0, ?b1)"
    by (simp add: accumulate_def append_char_def store_def AT_BUFFER_SIZE_def idle_parser_def)
  have no: "oob_scan (oobs ?at) ?b1 5 2 = None" by (simp add: idle_parser_def)
  have ver: "verify sscanf_literal False LF 5 ?b1 = Inr (- 1)"
    by (simp add: run_defs)
  have nm: "(- 1 :: int) \<noteq> int 2" by simp
  have bd: "LF = LF \<or> 2 + 1 \<ge> AT_BUFFER_SIZE - 5" by simp
  have sil: "None \<notin> set (rx (script (''a'' @ [LF])))" by (simp add: script_def bytes_def)
  have ret: "returned (fst (ATCmdParser_vrecv sscanf_literal quiet_handlers idle_parser
          (script (''a'' @ [LF])) ''OK'')) = Some False"
    by (simp add: run_defs)
  have ok: "fst (ATCmdParser_vrecv sscanf_literal quiet_handlers idle_parser
          (script (''a'' @ [LF] @ ''OK'')) ''OK'') = Success"
    by (simp add: run_defs)
  have tmo: "fst (ATCmdParser_vrecv sscanf_literal quiet_handlers idle_parser
          (script (''a'' @ [LF])) ''OK'') = Timeout"
    "rx (snd (snd (ATCmdParser_vrecv sscanf_literal quiet_handlers idle_parser
          (script (''a'' @ [LF])) ''OK''))) = []"
    by (simp_all add: run_defs)
  show ?thesis
    using failed_line_resets_and_continues[OF rxw acc no ver nm bd,
        where response="''OK''" and i=2 and ?w0.0="script (''a'' @ [LF])" and cbs=quiet_handlers
          and ?at0.0=idle_parser and ?response0.0="''OK''" and aborted=False] sil ret ok tmo
    by (simp add: script_def bytes_def idle_parser_def)
qed

subsection \<open>Timeouts\<close>

text \<open>
  Claim C7. A read of the receive loop that times out ends the receive at once with
  \<^verbatim>\<open>return false\<close>: nothing else is read or called. So a receive of a pattern
  that is not empty whose first read times out returns false having consumed that one
  read, with nothing but the staged template written; and, with callbacks that read
  nothing, a receive on a transport whose first timeout comes after delivered bytes
  either returns false for that timeout, having read up to it and no further, or has
  ended before reaching it. \<^verbatim>\<open>ATCmdParser_read\<close> with size \<open>sz\<close> and an array that
  has room for it returns \<open>-1\<close> if one of the \<open>sz\<close> reads times out, and returns
  \<open>sz\<close>, with the bytes stored, if all of them deliver a byte; so it returns a
  non-negative \<open>sz\<close> only when all reads succeed.
\<close>

theorem timeout_surfaces_at_once:
  assumes fits: "nat sz \<le> length data"
  shows "((rx w = [] \<or> (\<exists>rest. rx w = None # rest)) \<longrightarrow>
            recv_loop sscanf_n cbs response i offset whole_line_wanted j dummy dummy_pos
              in_prev aborted at w = (Timeout, at, w\<lparr>rx := tl (rx w)\<rparr>)
            \<and> returned (fst (recv_loop sscanf_n cbs response i offset whole_line_wanted j dummy
                  dummy_pos in_prev aborted at w)) = Some False)
     \<and> (\<not> reads_succeed (rx w) (nat sz) \<longrightarrow>
            (\<exists>d w'. ATCmdParser_read data sz w = Inr (- 1, d, w')))
     \<and> (reads_succeed (rx w) (nat sz) \<longrightarrow>
            ATCmdParser_read data sz w =
              Inr (int (nat sz), map the (take (nat sz) (rx w)) @ drop (nat sz) data,
                   w\<lparr>rx := drop (nat sz) (rx w)\<rparr>))
     \<and> (0 \<le> sz \<and> (\<exists>d w'. ATCmdParser_read data sz w = Inr (sz, d, w')) \<longrightarrow>
            reads_succeed (rx w) (nat sz))
     \<and> (c_at response 0 \<noteq> NUL
          \<and> stage_template response (buffer at) = Inr (i2, offset2, whole2, buf2)
          \<and> (rx w = [] \<or> (\<exists>rest. rx w = None # rest)) \<longrightarrow>
            ATCmdParser_vrecv sscanf_n cbs at w response
              = (Timeout, at\<lparr>buffer := buf2\<rparr>, w\<lparr>rx := tl (rx w)\<rparr>)
            \<and> returned (fst (ATCmdParser_vrecv sscanf_n cbs at w response)) = Some False)
     \<and> ((\<forall>h a p. snd (cbs h a p) = 0) \<and> rx w = pre @ None # later \<and> None \<notin> set pre \<longrightarrow>
            (fst (ATCmdParser_vrecv sscanf_n cbs at w response) = Timeout
               \<and> returned (fst (ATCmdParser_vrecv sscanf_n cbs at w response)) = Some False
               \<and> rx (snd (snd (ATCmdParser_vrecv sscanf_n cbs at w response))) = later)
            \<or> (fst (ATCmdParser_vrecv sscanf_n cbs at w response) \<noteq> Timeout
               \<and> (\<exists>s. rx (snd (snd (ATCmdParser_vrecv sscanf_n cbs at w response)))
                         = s @ None # later)))"
    (is "?A \<and> ?B \<and> ?C \<and> ?D \<and> ?E \<and> ?F")
proof -
  have a: ?A
    by (auto simp: recv_loop.simps[of sscanf_n cbs response i offset whole_line_wanted j dummy
          dummy_pos in_prev aborted at w])
  have b: ?B
    using read_loop_timeout[OF fits, of w 0] by (simp add: ATCmdParser_read_def)
  have c: ?C
    using read_loop_all[OF _ fits, of 0 w] by (simp add: ATCmdParser_read_def)
  have d: ?D
    using b by auto
  have e: ?E
    by (auto simp: ATCmdParser_vrecv_def recv_lines.simps[of sscanf_n cbs response NUL False at w]
        recv_loop.simps[of sscanf_n cbs response i2 offset2 whole2 0 0 "replicate 20 0" NUL False
          "at\<lparr>buffer := buf2\<rparr>" w])
  have f: ?F
  proof (intro impI)
    assume h: "(\<forall>h a p. snd (cbs h a p) = 0) \<and> rx w = pre @ None # later \<and> None \<notin> set pre"
    then have q: "\<forall>h a p. snd (cbs h a p) = 0"
      and p: "\<exists>p. rx w = p @ None # later \<and> None \<notin> set p" by auto
    show "(fst (ATCmdParser_vrecv sscanf_n cbs at w response) = Timeout
               \<and> returned (fst (ATCmdParser_vrecv sscanf_n cbs at w response)) = Some False
               \<and> rx (snd (snd (ATCmdParser_vrecv sscanf_n cbs at w response))) = later)
            \<or> (fst (ATCmdParser_vrecv sscanf_n cbs at w response) \<noteq> Timeout
               \<and> (\<exists>s. rx (snd (snd (ATCmdParser_vrecv sscanf_n cbs at w response)))
                         = s @ None # later))"
      using timeout_ends_receive(1)[OF q p, of sscanf_n response NUL False at]
      unfolding ATCmdParser_vrecv_def by auto
  qed
  show ?thesis using a b c d e f by blast
qed

theorem timeout_surfaces_at_once_witness:
  "recv_loop sscanf_literal quiet_handlers ''OK'' 2 5 False 0 0 (replicate 20 0) NUL False
      (idle_parser\<lparr>buffer := ok_staged\<rparr>)
      \<lparr>rx = [None, Some (CHR ''O''), Some (CHR ''K'')], readable = True, trace = []\<rparr>
     = (Timeout, idle_parser\<lparr>buffer := ok_staged\<rparr>,
        \<lparr>rx = [Some (CHR ''O''), Some (CHR ''K'')], readable = True, trace = []\<rparr>)
   \<and> (\<exists>d w'. ATCmdParser_read ''....'' 3
         (\<lparr>rx = [Some (CHR ''a''), None, Some (CHR ''c'')], readable = True, trace = []\<rparr>
            :: nat world) = Inr (- 1, d, w'))
   \<and> ATCmdParser_read ''....'' 3 (script ''abcd'') = Inr (3, ''abc.'', script ''d'')
   \<and> (\<exists>b. ATCmdParser_vrecv sscanf_literal quiet_handlers idle_parser
          \<lparr>rx = [None, Some (CHR ''O''), Some (CHR ''K'')], readable = True, trace = []\<rparr> ''OK''
        = (Timeout, idle_parser\<lparr>buffer := b\<rparr>,
           \<lparr>rx = [Some (CHR ''O''), Some (CHR ''K'')], readable = True, trace = []\<rparr>))
   \<and> fst (ATCmdParser_vrecv sscanf_literal quiet_handlers idle_parser
          \<lparr>rx = [Some (CHR ''O''), None, Some (CHR ''K'')], readable = True, trace = []\<rparr> ''OK'')
      = Timeout
   \<and> returned (fst (ATCmdParser_vrecv sscanf_literal quiet_handlers idle_parser
          \<lparr>rx = [Some (CHR ''O''), None, Some (CHR ''K'')], readable = True, trace = []\<rparr> ''OK''))
      = Some False
   \<and> rx (snd (snd (ATCmdParser_vrecv sscanf_literal quiet_handlers idle_parser
          \<lparr>rx = [Some (CHR ''O''), None, Some (CHR ''K'')], readable = True, trace = []\<rparr> ''OK'')))
      = [Some (CHR ''K'')]"
proof -
  let ?w1 = "\<lparr>rx = [None, Some (CHR ''O''), Some (CHR ''K'')], readable = True, trace = []\<rparr>
      :: nat world"
  let ?w2 = "\<lparr>rx = [Some (CHR ''a''), None, Some (CHR ''c'')], readable = True, trace = []\<rparr>
      :: nat world"
  let ?w3 = "\<lparr>rx = [Some (CHR ''O''), None, Some (CHR ''K'')], readable = True, trace = []\<rparr>
      :: nat world"
  have fits: "nat 3 \<le> length ''....''" by simp
  have t: "rx ?w1 = [] \<or> (\<exists>rest. rx ?w1 = None # rest)" by simp
  have bad: "\<not> reads_succeed (rx ?w2) (nat 3)" by (simp add: reads_succeed_def)
  have good: "reads_succeed (rx (script ''abcd'')) (nat 3)"
    by (simp add: reads_succeed_def script_def bytes_def)
  have first: "recv_loop sscanf_literal quiet_handlers ''OK'' 2 5 False 0 0 (replicate 20 0) NUL
      False (idle_parser\<lparr>buffer := ok_staged\<rparr>) ?w1
     = (Timeout, idle_parser\<lparr>buffer := ok_staged\<rparr>,
        \<lparr>rx = [Some (CHR ''O''), Some (CHR ''K'')], readable = True, trace = []\<rparr>)
   \<and> (\<exists>d w'. ATCmdParser_read ''....'' 3 ?w2 = Inr (- 1, d, w'))
   \<and> ATCmdParser_read ''....'' 3 (script ''abcd'') = Inr (3, ''abc.'', script ''d'')"
    using timeout_surfaces_at_once[OF fits, THEN conjunct1, of ?w1 sscanf_literal quiet_handlers
        "''OK''" 2 5 False 0 0 "replicate 20 0" NUL False "idle_parser\<lparr>buffer := ok_staged\<rparr>"]
      timeout_surfaces_at_once[OF fits, THEN conjunct2, THEN conjunct1, of ?w2]
      timeout_surfaces_at_once[OF fits, THEN conjunct2, THEN conjunct2, THEN conjunct1,
        of "script ''abcd''"]
      t bad good
    by (simp add: script_def bytes_def)
  obtain b where st: "stage_template ''OK'' (buffer idle_parser) = Inr (2, 5, False, b)"
    by (simp add: run_defs)
  have nz: "c_at ''OK'' 0 \<noteq> NUL" by (simp add: c_at_def NUL_def)
  have entry: "ATCmdParser_vrecv sscanf_literal quiet_handlers idle_parser ?w1 ''OK''
      = (Timeout, idle_parser\<lparr>buffer := b\<rparr>, ?w1\<lparr>rx := tl (rx ?w1)\<rparr>)"
    using timeout_surfaces_at_once[OF fits, where response="''OK''" and at=idle_parser
        and ?i2.0=2 and ?offset2.0=5 and ?whole2.0=False and ?buf2.0=b and w="?w1"
        and sscanf_n=sscanf_literal and cbs=quiet_handlers] nz st t
    by blast
  have quiet: "\<forall>h a p. snd (quiet_handlers h a p) = 0" by (simp add: quiet_handlers_def)
  have sp: "rx ?w3 = [Some (CHR ''O'')] @ None # [Some (CHR ''K'')]"
    "None \<notin> set [Some (CHR ''O'')]" by simp_all
  have "(fst (ATCmdParser_vrecv sscanf_literal quiet_handlers idle_parser ?w3 ''OK'') = Timeout
         \<and> returned (fst (ATCmdParser_vrecv sscanf_literal quiet_handlers idle_parser ?w3 ''OK''))
            = Some False
         \<and> rx (snd (snd (ATCmdParser_vrecv sscanf_literal quiet_handlers idle_parser ?w3 ''OK'')))
            = [Some (CHR ''K'')])
       \<or> (fst (ATCmdParser_vrecv sscanf_literal quiet_handlers idle_parser ?w3 ''OK'') \<noteq> Timeout
         \<and> (\<exists>s. rx (snd (snd (ATCmdParser_vrecv sscanf_literal quiet_handlers idle_parser ?w3
                ''OK''))) = s @ None # [Some (CHR ''K'')]))"
    using timeout_surfaces_at_once[OF fits, where cbs=quiet_handlers and w="?w3"
        and pre="[Some (CHR ''O'')]" and later="[Some (CHR ''K'')]" and sscanf_n=sscanf_literal
        and at=idle_parser and response="''OK''"] quiet sp
    by blast
  moreover have "fst (ATCmdParser_vrecv sscanf_literal quiet_handlers idle_parser ?w3 ''OK'')
      = Timeout"
    by (simp add: run_defs)
  ultimately have mid: "fst (ATCmdParser_vrecv sscanf_literal quiet_handlers idle_parser ?w3 ''OK'')
        = Timeout
      \<and> returned (fst (ATCmdParser_vrecv sscanf_literal quiet_handlers idle_parser ?w3 ''OK''))
        = Some False
      \<and> rx (snd (snd (ATCmdParser_vrecv sscanf_literal quiet_handlers idle_parser ?w3 ''OK'')))
        = [Some (CHR ''K'')]"
    by blast
  have "\<exists>b. ATCmdParser_vrecv sscanf_literal quiet_handlers idle_parser ?w1 ''OK''
        = (Timeout, idle_parser\<lparr>buffer := b\<rparr>,
           \<lparr>rx = [Some (CHR ''O''), Some (CHR ''K'')], readable = True, trace = []\<rparr>)"
    using entry by (intro exI[of _ b]) simp
  then show ?thesis using first mid by blast
qed

subsection \<open>Argument splitting\<close>

text \<open>
  Claim C8. The header's example says that \<^verbatim>\<open>111,222,333\,33,444\<close> with four slots
  splits into \<^verbatim>\<open>111\<close>, \<^verbatim>\<open>222\<close>, \<^verbatim>\<open>333,33\<close>, \<^verbatim>\<open>444\<close> with count 4. The code
  returns count 4, but the four strings are \<^verbatim>\<open>,11\<close>, \<^verbatim>\<open>222\<close>, \<^verbatim>\<open>333\33\<close> and
  \<^verbatim>\<open>4444\<close>: the escape branch writes the comma to \<^verbatim>\<open>args[i - i]\<close>, that is to
  \<^verbatim>\<open>args[0]\<close>, and its copy moves one byte too few.
\<close>

theorem analyse_args_escaped_example:
  "ATCmdParser_analyse_args escaped_example [0, 0, 0, 0] 4 =
     Inr (4, [0, 4, 8, 15],
          '',11'' @ [NUL] @ ''222'' @ [NUL] @ ''333'' @ [CHR 0x5C] @ ''33'' @ [NUL] @ ''4444'' @ [NUL])
   \<and> arg_strings 4 [0, 4, 8, 15]
        ('',11'' @ [NUL] @ ''222'' @ [NUL] @ ''333'' @ [CHR 0x5C] @ ''33'' @ [NUL] @ ''4444'' @ [NUL])
      = ['',11'', ''222'', ''333'' @ [CHR 0x5C] @ ''33'', ''4444'']
   \<and> ['',11'', ''222'', ''333'' @ [CHR 0x5C] @ ''33'', ''4444'']
      \<noteq> [''111'', ''222'', ''333,33'', ''444'']"
  by (simp add: ATCmdParser_analyse_args_def escaped_example_def strlen_def NUL_def
      analyse_loop.simps arg_strings_def c_string_at_def)

subsection \<open>The idle poller\<close>

text \<open>
  Claim C9. When the transport reports no data available, \<^verbatim>\<open>ATCmdParser_process_oob\<close>
  returns false and leaves the session, the script of the transport and the trace of
  outside calls as they are: no read, no callback, no write to the buffer.
\<close>

theorem poll_without_data_is_idle:
  assumes "\<not> readable w"
  shows "ATCmdParser_process_oob cbs at w = (Inr False, at, w)"
  using assms by (simp add: ATCmdParser_process_oob_def)

theorem poll_without_data_is_idle_witness:
  "ATCmdParser_process_oob quiet_handlers plus_x_parser
      \<lparr>rx = bytes ''+X'', readable = False, trace = []\<rparr>
     = (Inr False, plus_x_parser, \<lparr>rx = bytes ''+X'', readable = False, trace = []\<rparr>)"
proof -
  have h: "\<not> readable (\<lparr>rx = bytes ''+X'', readable = False, trace = []\<rparr> :: nat world)"
    by simp
  show ?thesis by (rule poll_without_data_is_idle[OF h])
qed

subsection \<open>A prefix is detected only as the whole candidate\<close>

text \<open>
  Claim C10. In the receive loop and in the idle poller an entry of the registry is
  detected only when its length is the candidate length and its bytes are the
  candidate's. So when the candidate is a registered prefix \<open>P\<close> preceded by other
  bytes, the entry detected, if any, is not one for \<open>P\<close> but the first entry whose
  prefix is the whole candidate. In that pass of either loop the only callback called is
  the callback of that entry; when no entry has the whole candidate as its prefix, the
  pass calls no callback at all and goes on to verification (in the receive loop) or to
  the check for the delimiter (in the poller).
\<close>

theorem oob_needs_whole_candidate:
  assumes reg: "\<forall>e \<in> set registry. oob_len e = length (oob_prefix e)"
    and pre: "pre \<noteq> []"
  shows "(accumulate offset c in_prev j dummy dummy_pos buf = Inr (j1, dummy1, dummy_pos1, buf1)
          \<and> recv_step sscanf_n registry response i offset whole_line_wanted j dummy dummy_pos
              in_prev c buf = Oob_detected e b \<longrightarrow>
            e \<in> set registry \<and> j1 = oob_len e \<and> map buf1 [offset..<offset + j1] = oob_prefix e
            \<and> (map buf1 [offset..<offset + j1] = pre @ P \<longrightarrow> oob_prefix e \<noteq> P))
     \<and> (oobs atp = registry \<and> append_char 0 c n (buffer atp) = Inr (n1, pbuf1)
          \<and> process_step atp n c = Poll_oob e b \<longrightarrow>
            e \<in> set registry \<and> n1 = oob_len e \<and> map pbuf1 [0..<n1] = oob_prefix e
            \<and> (map pbuf1 [0..<n1] = pre @ P \<longrightarrow> oob_prefix e \<noteq> P))
     \<and> (oobs at = registry \<and> rx w = Some c # rest
          \<and> accumulate offset c in_prev j dummy dummy_pos (buffer at)
                = Inr (j1, dummy1, dummy_pos1, buf1)
          \<and> map buf1 [offset..<offset + j1] = pre @ P \<longrightarrow>
            oob_scan registry buf1 offset j1 = List.find (\<lambda>x. oob_prefix x = pre @ P) registry
            \<and> (case List.find (\<lambda>x. oob_prefix x = pre @ P) registry of
                 None \<Rightarrow>
                   recv_loop sscanf_n cbs response i offset whole_line_wanted j dummy dummy_pos
                     in_prev aborted at w
                   = (case verify sscanf_n whole_line_wanted c offset buf1 of
                        Inl f \<Rightarrow> (Fault f, at, w\<lparr>rx := rest\<rparr>)
                      | Inr count \<Rightarrow>
                          if count = int j1 then
                            (case finish_line response i offset j1 dummy1 dummy_pos1 buf1 of
                               Inl f \<Rightarrow> (Fault f, at, w\<lparr>rx := rest\<rparr>)
                             | Inr (buf2, data, fmt) \<Rightarrow>
                                 recv_lines sscanf_n cbs (drop i response) c aborted
                                   (at\<lparr>buffer := buf2\<rparr>)
                                   (w\<lparr>rx := rest, trace := trace w @ [Captured data fmt]\<rparr>))
                          else if c = LF \<or> j1 + 1 \<ge> AT_BUFFER_SIZE - offset then
                            recv_loop sscanf_n cbs response i offset whole_line_wanted 0 0
                              dummy_pos1 c aborted (at\<lparr>buffer := buf1\<rparr>) (w\<lparr>rx := rest\<rparr>)
                          else
                            recv_loop sscanf_n cbs response i offset whole_line_wanted j1 dummy1
                              dummy_pos1 c aborted (at\<lparr>buffer := buf1\<rparr>) (w\<lparr>rx := rest\<rparr>))
               | Some e' \<Rightarrow>
                   oob_prefix e' = pre @ P \<and> oob_prefix e' \<noteq> P
                   \<and> (\<forall>hP. (\<forall>x \<in> set registry. oob_cb x = Some hP \<longrightarrow> oob_prefix x = P)
                              \<longrightarrow> oob_cb e' \<noteq> Some hP)
                   \<and> recv_loop sscanf_n cbs response i offset whole_line_wanted j dummy dummy_pos
                       in_prev False at w
                     = (case oob_cb e' of
                          None \<Rightarrow>
                            recv_lines sscanf_n cbs response c False (at\<lparr>buffer := buf1\<rparr>)
                              (w\<lparr>rx := rest\<rparr>)
                        | Some h \<Rightarrow>
                            recv_lines sscanf_n cbs response c False
                              (fst (cbs h (at\<lparr>buffer := buf1\<rparr>) rest))
                              (w\<lparr>rx := drop (snd (cbs h (at\<lparr>buffer := buf1\<rparr>) rest)) rest,
                                 trace := trace w @ [Oob_called h]\<rparr>))))
     \<and> (oobs atp = registry \<and> rx wp = Some c # restp
          \<and> append_char 0 c n (buffer atp) = Inr (n1, pbuf1)
          \<and> map pbuf1 [0..<n1] = pre @ P \<longrightarrow>
            oob_scan registry pbuf1 0 n1 = List.find (\<lambda>x. oob_prefix x = pre @ P) registry
            \<and> (case List.find (\<lambda>x. oob_prefix x = pre @ P) registry of
                 None \<Rightarrow>
                   process_loop cbs n atp wp
                   = (case delimiter_seen atp n1 pbuf1 of
                        Inl f \<Rightarrow> (Inl f, atp, wp\<lparr>rx := restp\<rparr>)
                      | Inr flush \<Rightarrow>
                          if flush then
                            process_loop cbs 0 (atp\<lparr>buffer := pbuf1\<rparr>)
                              (wp\<lparr>rx := restp,
                                  trace := trace wp @
                                    (if unprocessed_data atp
                                     then [Unprocessed (map pbuf1 [0..<n1]) n1] else [])\<rparr>)
                          else process_loop cbs n1 (atp\<lparr>buffer := pbuf1\<rparr>) (wp\<lparr>rx := restp\<rparr>))
               | Some e' \<Rightarrow>
                   oob_prefix e' = pre @ P \<and> oob_prefix e' \<noteq> P
                   \<and> (\<forall>hP. (\<forall>x \<in> set registry. oob_cb x = Some hP \<longrightarrow> oob_prefix x = P)
                              \<longrightarrow> oob_cb e' \<noteq> Some hP)
                   \<and> process_loop cbs n atp wp
                     = (case oob_cb e' of
                          None \<Rightarrow> (Inr True, atp\<lparr>buffer := pbuf1\<rparr>, wp\<lparr>rx := restp\<rparr>)
                        | Some h \<Rightarrow>
                            (Inr True, fst (cbs h (atp\<lparr>buffer := pbuf1\<rparr>) restp),
                             wp\<lparr>rx := drop (snd (cbs h (atp\<lparr>buffer := pbuf1\<rparr>) restp)) restp,
                                trace := trace wp @ [Oob_called h]\<rparr>))))"
    (is "?A \<and> ?B \<and> ?C \<and> ?D")
proof -
  have one: "\<And>off k bf. oob_scan registry bf off k = Some e \<Longrightarrow>
      e \<in> set registry \<and> k = oob_len e \<and> map bf [off..<off + k] = oob_prefix e
      \<and> (map bf [off..<off + k] = pre @ P \<longrightarrow> oob_prefix e \<noteq> P)"
  proof -
    fix off k bf
    assume s: "oob_scan registry bf off k = Some e"
    have m: "e \<in> set registry" "k = oob_len e" using oob_scan_Some[OF s] by auto
    then have l: "oob_len e = length (oob_prefix e)" using reg by simp
    have w: "map bf [off..<off + k] = oob_prefix e" by (rule oob_scan_whole_candidate[OF s l])
    show "e \<in> set registry \<and> k = oob_len e \<and> map bf [off..<off + k] = oob_prefix e
      \<and> (map bf [off..<off + k] = pre @ P \<longrightarrow> oob_prefix e \<noteq> P)"
      using m w pre by auto
  qed
  have r: "accumulate offset c in_prev j dummy dummy_pos buf = Inr (j1, dummy1, dummy_pos1, buf1)
          \<and> recv_step sscanf_n registry response i offset whole_line_wanted j dummy dummy_pos
              in_prev c buf = Oob_detected e b \<longrightarrow> oob_scan registry buf1 offset j1 = Some e"
    by (auto simp: recv_step_def split: option.splits sum.splits if_splits prod.splits)
  have p: "oobs atp = registry \<and> append_char 0 c n (buffer atp) = Inr (n1, pbuf1)
          \<and> process_step atp n c = Poll_oob e b \<longrightarrow> oob_scan registry pbuf1 0 n1 = Some e"
    by (auto simp: process_step_def split: option.splits sum.splits if_splits prod.splits)
  have c1: ?A
    using one[of buf1 offset j1] r by auto
  have c2: ?B
    using one[of pbuf1 0 n1] p by auto
  have neq: "pre @ P \<noteq> P" using pre by simp
  have c3: ?C
  proof (intro impI)
    assume h: "oobs at = registry \<and> rx w = Some c # rest
          \<and> accumulate offset c in_prev j dummy dummy_pos (buffer at)
                = Inr (j1, dummy1, dummy_pos1, buf1)
          \<and> map buf1 [offset..<offset + j1] = pre @ P"
    then have o: "oobs at = registry" and rxw: "rx w = Some c # rest"
      and acc: "accumulate offset c in_prev j dummy dummy_pos (buffer at)
                = Inr (j1, dummy1, dummy_pos1, buf1)"
      and cand: "map buf1 [offset..<offset + j1] = pre @ P" by auto
    have scan: "oob_scan registry buf1 offset j1
        = List.find (\<lambda>x. oob_prefix x = pre @ P) registry"
      using oob_scan_is_find[OF reg, of buf1 offset j1] cand by simp
    show "oob_scan registry buf1 offset j1 = List.find (\<lambda>x. oob_prefix x = pre @ P) registry
        \<and> (case List.find (\<lambda>x. oob_prefix x = pre @ P) registry of
             None \<Rightarrow>
                   recv_loop sscanf_n cbs response i offset whole_line_wanted j dummy dummy_pos
                     in_prev aborted at w
                   = (case verify sscanf_n whole_line_wanted c offset buf1 of
                        Inl f \<Rightarrow> (Fault f, at, w\<lparr>rx := rest\<rparr>)
                      | Inr count \<Rightarrow>
                          if count = int j1 then
                            (case finish_line response i offset j1 dummy1 dummy_pos1 buf1 of
                               Inl f \<Rightarrow> (Fault f, at, w\<lparr>rx := rest\<rparr>)
                             | Inr (buf2, data, fmt) \<Rightarrow>
                                 recv_lines sscanf_n cbs (drop i response) c aborted
                                   (at\<lparr>buffer := buf2\<rparr>)
                                   (w\<lparr>rx := rest, trace := trace w @ [Captured data fmt]\<rparr>))
                          else if c = LF \<or> j1 + 1 \<ge> AT_BUFFER_SIZE - offset then
                            recv_loop sscanf_n cbs response i offset whole_line_wanted 0 0
                              dummy_pos1 c aborted (at\<lparr>buffer := buf1\<rparr>) (w\<lparr>rx := rest\<rparr>)
                          else
                            recv_loop sscanf_n cbs response i offset whole_line_wanted j1 dummy1
                              dummy_pos1 c aborted (at\<lparr>buffer := buf1\<rparr>) (w\<lparr>rx := rest\<rparr>))
               | Some e' \<Rightarrow>
                   oob_prefix e' = pre @ P \<and> oob_prefix e' \<noteq> P
                   \<and> (\<forall>hP. (\<forall>x \<in> set registry. oob_cb x = Some hP \<longrightarrow> oob_prefix x = P)
                              \<longrightarrow> oob_cb e' \<noteq> Some hP)
                   \<and> recv_loop sscanf_n cbs response i offset whole_line_wanted j dummy dummy_pos
                       in_prev False at w
                     = (case oob_cb e' of
                          None \<Rightarrow>
                            recv_lines sscanf_n cbs response c False (at\<lparr>buffer := buf1\<rparr>)
                              (w\<lparr>rx := rest\<rparr>)
                        | Some h \<Rightarrow>
                            recv_lines sscanf_n cbs response c False
                              (fst (cbs h (at\<lparr>buffer := buf1\<rparr>) rest))
                              (w\<lparr>rx := drop (snd (cbs h (at\<lparr>buffer := buf1\<rparr>) rest)) rest,
                                 trace := trace w @ [Oob_called h]\<rparr>)))"
    proof (cases "List.find (\<lambda>x. oob_prefix x = pre @ P) registry")
      case None
      then have "oob_scan (oobs at) buf1 offset j1 = None" using scan o by simp
      from recv_loop_plain_pass[OF rxw acc this, of sscanf_n cbs response i whole_line_wanted aborted]
      show ?thesis using scan None by simp
    next
      case (Some e')
      then have pe: "oob_prefix e' = pre @ P" and me: "e' \<in> set registry"
        by (auto simp: find_Some_iff)
      have nh: "\<forall>hP. (\<forall>x \<in> set registry. oob_cb x = Some hP \<longrightarrow> oob_prefix x = P)
                  \<longrightarrow> oob_cb e' \<noteq> Some hP"
        using me pe neq by auto
      have step: "recv_step sscanf_n (oobs at) response i offset whole_line_wanted j dummy
          dummy_pos in_prev c (buffer at) = Oob_detected e' buf1"
        using scan Some o by (simp add: recv_step_def acc)
      from recv_loop_oob_restart[OF rxw step, of cbs]
      show ?thesis using scan Some pe neq nh by simp
    qed
  qed
  have c4: ?D
  proof (intro impI)
    assume h: "oobs atp = registry \<and> rx wp = Some c # restp
          \<and> append_char 0 c n (buffer atp) = Inr (n1, pbuf1)
          \<and> map pbuf1 [0..<n1] = pre @ P"
    then have o: "oobs atp = registry" and rxw: "rx wp = Some c # restp"
      and app: "append_char 0 c n (buffer atp) = Inr (n1, pbuf1)"
      and cand: "map pbuf1 [0..<n1] = pre @ P" by auto
    have scan: "oob_scan registry pbuf1 0 n1
        = List.find (\<lambda>x. oob_prefix x = pre @ P) registry"
      using oob_scan_is_find[OF reg, of pbuf1 0 n1] cand by simp
    show "oob_scan registry pbuf1 0 n1 = List.find (\<lambda>x. oob_prefix x = pre @ P) registry
            \<and> (case List.find (\<lambda>x. oob_prefix x = pre @ P) registry of
                 None \<Rightarrow>
                   process_loop cbs n atp wp
                   = (case delimiter_seen atp n1 pbuf1 of
                        Inl f \<Rightarrow> (Inl f, atp, wp\<lparr>rx := restp\<rparr>)
                      | Inr flush \<Rightarrow>
                          if flush then
                            process_loop cbs 0 (atp\<lparr>buffer := pbuf1\<rparr>)
                              (wp\<lparr>rx := restp,
                                  trace := trace wp @
                                    (if unprocessed_data atp
                                     then [Unprocessed (map pbuf1 [0..<n1]) n1] else [])\<rparr>)
                          else process_loop cbs n1 (atp\<lparr>buffer := pbuf1\<rparr>) (wp\<lparr>rx := restp\<rparr>))
               | Some e' \<Rightarrow>
                   oob_prefix e' = pre @ P \<and> oob_prefix e' \<noteq> P
                   \<and> (\<forall>hP. (\<forall>x \<in> set registry. oob_cb x = Some hP \<longrightarrow> oob_prefix x = P)
                              \<longrightarrow> oob_cb e' \<noteq> Some hP)
                   \<and> process_loop cbs n atp wp
                     = (case oob_cb e' of
                          None \<Rightarrow> (Inr True, atp\<lparr>buffer := pbuf1\<rparr>, wp\<lparr>rx := restp\<rparr>)
                        | Some h \<Rightarrow>
                            (Inr True, fst (cbs h (atp\<lparr>buffer := pbuf1\<rparr>) restp),
                             wp\<lparr>rx := drop (snd (cbs h (atp\<lparr>buffer := pbuf1\<rparr>) restp)) restp,
                                trace := trace wp @ [Oob_called h]\<rparr>)))"
    proof (cases "List.find (\<lambda>x. oob_prefix x = pre @ P) registry")
      case None
      then have "oob_scan (oobs atp) pbuf1 0 n1 = None" using scan o by simp
      from process_loop_plain_pass[OF rxw app this, of cbs]
      show ?thesis using scan None by simp
    next
      case (Some e')
      then have pe: "oob_prefix e' = pre @ P" and me: "e' \<in> set registry"
        by (auto simp: find_Some_iff)
      have nh: "\<forall>hP. (\<forall>x \<in> set registry. oob_cb x = Some hP \<longrightarrow> oob_prefix x = P)
                  \<longrightarrow> oob_cb e' \<noteq> Some hP"
        using me pe neq by auto
      have step: "process_step atp n c = Poll_oob e' pbuf1"
        using scan Some o by (simp add: process_step_def app)
      from process_loop_oob_pass[OF rxw step, of cbs]
      show ?thesis using scan Some pe neq nh by simp
    qed
  qed
  show ?thesis using c1 c2 c3 c4 by blast
qed

theorem oob_needs_whole_candidate_witness:
  "recv_step sscanf_literal two_prefixes ''B'' 1 4 False 2 0 (replicate 20 0) (CHR ''+'')
      (CHR ''X'') (b_staged(4 := CHR ''a'', 5 := CHR ''+''))
     = Oob_detected \<lparr>oob_len = 3, oob_prefix = ''a+X'', oob_cb = Some 9\<rparr>
         (b_staged(4 := CHR ''a'', 5 := CHR ''+'', 6 := CHR ''X'', 7 := NUL))
   \<and> (\<exists>b. process_step (idle_parser\<lparr>oobs := two_prefixes, buffer := b_staged(0 := CHR ''a'', 1 := CHR ''+'')\<rparr>)
          2 (CHR ''X'')
        = Poll_oob \<lparr>oob_len = 3, oob_prefix = ''a+X'', oob_cb = Some 9\<rparr> b)
   \<and> ''a+X'' \<noteq> ''+X''
   \<and> (\<exists>b. recv_step sscanf_literal (oobs plus_x_parser) ''B'' 1 4 False 2 0 (replicate 20 0)
          (CHR ''+'') (CHR ''X'') (b_staged(4 := CHR ''a'', 5 := CHR ''+''))
        = Keep_reading 3 0 (replicate 20 0) b)
   \<and> fst (ATCmdParser_process_oob quiet_handlers plus_x_parser (script ''a+X'')) = Inr False
   \<and> trace (snd (snd (ATCmdParser_process_oob quiet_handlers plus_x_parser (script ''a+X'')))) = []
   \<and> fst (recv_loop sscanf_literal quiet_handlers ''B'' 1 4 False 2 0 (replicate 20 0) (CHR ''+'')
          False (plus_x_parser\<lparr>buffer := b_staged(4 := CHR ''a'', 5 := CHR ''+'')\<rparr>)
          (script (''X'' @ [LF] @ ''B''))) = Success
   \<and> trace (snd (snd (recv_loop sscanf_literal quiet_handlers ''B'' 1 4 False 2 0 (replicate 20 0)
          (CHR ''+'') False (plus_x_parser\<lparr>buffer := b_staged(4 := CHR ''a'', 5 := CHR ''+'')\<rparr>)
          (script (''X'' @ [LF] @ ''B'')))))
      = [Captured ''B'' ''B'']
   \<and> trace (snd (snd (recv_loop sscanf_literal quiet_handlers ''B'' 1 4 False 2 0 (replicate 20 0)
          (CHR ''+'') False
          (idle_parser\<lparr>oobs := two_prefixes, buffer := b_staged(4 := CHR ''a'', 5 := CHR ''+'')\<rparr>)
          (script ''XB''))))
      = [Oob_called 9, Captured ''B'' ''B'']
   \<and> fst (ATCmdParser_vrecv sscanf_literal quiet_handlers plus_x_parser
          (script (''a+X'' @ [LF] @ ''B'')) ''B'') = Success
   \<and> trace (snd (snd (ATCmdParser_vrecv sscanf_literal quiet_handlers plus_x_parser
          (script (''a+X'' @ [LF] @ ''B'')) ''B''))) = [Captured ''B'' ''B'']
   \<and> fst (ATCmdParser_process_oob quiet_handlers (idle_parser\<lparr>oobs := two_prefixes\<rparr>)
          (script ''a+X'')) = Inr True
   \<and> trace (snd (snd (ATCmdParser_process_oob quiet_handlers (idle_parser\<lparr>oobs := two_prefixes\<rparr>)
          (script ''a+X'')))) = [Oob_called 9]
   \<and> (\<exists>b. process_loop quiet_handlers 2
          (idle_parser\<lparr>oobs := two_prefixes, buffer := b_staged(0 := CHR ''a'', 1 := CHR ''+'')\<rparr>)
          (script ''X'')
        = (Inr True,
           idle_parser\<lparr>oobs := two_prefixes, buffer := b_staged(0 := CHR ''a'', 1 := CHR ''+'')\<rparr>
             \<lparr>buffer := b\<rparr>,
           \<lparr>rx = [], readable = True, trace = [Oob_called 9]\<rparr>))"
proof -
  let ?b = "b_staged(4 := CHR ''a'', 5 := CHR ''+'')"
  let ?b1 = "b_staged(4 := CHR ''a'', 5 := CHR ''+'', 6 := CHR ''X'', 7 := NUL)"
  let ?e = "\<lparr>oob_len = 3, oob_prefix = ''a+X'', oob_cb = Some (9 :: nat)\<rparr>"
  let ?at = "idle_parser\<lparr>oobs := two_prefixes, buffer := b_staged(0 := CHR ''a'', 1 := CHR ''+'')\<rparr>"
  let ?ar = "plus_x_parser\<lparr>buffer := ?b\<rparr>"
  let ?a2 = "idle_parser\<lparr>oobs := two_prefixes, buffer := ?b\<rparr>"
  let ?ap = "plus_x_parser\<lparr>buffer := b_staged(0 := CHR ''a'', 1 := CHR ''+'')\<rparr>"
  let ?wr = "script (''X'' @ [LF] @ ''B'')"
  have reg: "\<forall>e \<in> set two_prefixes. oob_len e = length (oob_prefix e)"
    by (simp add: two_prefixes_def)
  have reg1: "\<forall>e \<in> set (oobs plus_x_parser). oob_len e = length (oob_prefix e)"
    by (simp add: run_defs)
  have pre: "''a'' \<noteq> []" by simp
  have acc: "accumulate 4 (CHR ''X'') (CHR ''+'') 2 0 (replicate 20 0) ?b
      = Inr (3, 0, replicate 20 0, ?b1)"
    by (simp add: run_defs)
  have st: "recv_step sscanf_literal two_prefixes ''B'' 1 4 False 2 0 (replicate 20 0) (CHR ''+'')
      (CHR ''X'') ?b = Oob_detected ?e ?b1"
    by (simp add: run_defs two_prefixes_def)
  obtain p1 where app: "append_char 0 (CHR ''X'') 2 (buffer ?at) = Inr (3, p1)"
    and ps: "process_step ?at 2 (CHR ''X'') = Poll_oob ?e p1"
    and c2: "map p1 [0..<3] = ''a'' @ ''+X''"
    by (simp add: process_step_def run_defs two_prefixes_def)
  have c1: "map ?b1 [4..<4 + 3] = ''a'' @ ''+X''" by (simp add: run_defs)
  have k: "\<exists>b. recv_step sscanf_literal (oobs plus_x_parser) ''B'' 1 4 False 2 0 (replicate 20 0)
          (CHR ''+'') (CHR ''X'') ?b = Keep_reading 3 0 (replicate 20 0) b"
    by (simp add: run_defs)
  have po: "fst (ATCmdParser_process_oob quiet_handlers plus_x_parser (script ''a+X'')) = Inr False"
    "trace (snd (snd (ATCmdParser_process_oob quiet_handlers plus_x_parser (script ''a+X'')))) = []"
    by (simp_all add: ATCmdParser_process_oob_def process_loop.simps process_step_def
        delimiter_seen_def run_defs)
  have n1: "oob_prefix ?e \<noteq> ''+X''"
    using oob_needs_whole_candidate[OF reg pre,
        where offset=4 and c="CHR ''X''" and in_prev="CHR ''+''" and j=2 and dummy=0
          and dummy_pos="replicate 20 0" and buf="?b" and ?j1.0=3 and ?dummy1.0=0
          and ?dummy_pos1.0="replicate 20 0" and ?buf1.0="?b1" and sscanf_n=sscanf_literal
          and response="''B''" and i=1 and whole_line_wanted=False and e="?e" and b="?b1"
          and P="''+X''",
        THEN conjunct1]
      acc st c1 by simp
  have n2: "oob_prefix ?e \<noteq> ''+X''"
    using oob_needs_whole_candidate[OF reg pre,
        where atp="?at" and c="CHR ''X''" and n=2 and ?n1.0=3 and ?pbuf1.0=p1 and e="?e" and b=p1
          and P="''+X''",
        THEN conjunct2, THEN conjunct1]
      app ps c2 by (simp add: idle_parser_def)
  have accr: "accumulate 4 (CHR ''X'') (CHR ''+'') 2 0 (replicate 20 0) (buffer ?ar)
      = Inr (3, 0, replicate 20 0, ?b1)"
    by (simp add: run_defs)
  have acc2: "accumulate 4 (CHR ''X'') (CHR ''+'') 2 0 (replicate 20 0) (buffer ?a2)
      = Inr (3, 0, replicate 20 0, ?b1)"
    by (simp add: run_defs)
  have rxr: "rx ?wr = Some (CHR ''X'') # [Some LF, Some (CHR ''B'')]"
    by (simp add: script_def bytes_def)
  have rx2: "rx (script ''XB'') = Some (CHR ''X'') # [Some (CHR ''B'')]"
    by (simp add: script_def bytes_def)
  have l1: "fst (recv_loop sscanf_literal quiet_handlers ''B'' 1 4 False 2 0 (replicate 20 0)
          (CHR ''+'') False ?ar ?wr) = Success
      \<and> trace (snd (snd (recv_loop sscanf_literal quiet_handlers ''B'' 1 4 False 2 0
          (replicate 20 0) (CHR ''+'') False ?ar ?wr))) = [Captured ''B'' ''B'']"
    using oob_needs_whole_candidate[OF reg1 pre,
        where at="?ar" and w="?wr" and c="CHR ''X''" and rest="[Some LF, Some (CHR ''B'')]"
          and offset=4 and in_prev="CHR ''+''" and j=2 and dummy=0
          and dummy_pos="replicate 20 0" and ?j1.0=3 and ?dummy1.0=0
          and ?dummy_pos1.0="replicate 20 0" and ?buf1.0="?b1" and P="''+X''"
          and sscanf_n=sscanf_literal and cbs=quiet_handlers and response="''B''" and i=1
          and whole_line_wanted=False and aborted=False,
        THEN conjunct2, THEN conjunct2, THEN conjunct1]
      accr rxr c1
    by (simp add: run_defs)
  have l2: "trace (snd (snd (recv_loop sscanf_literal quiet_handlers ''B'' 1 4 False 2 0
          (replicate 20 0) (CHR ''+'') False ?a2 (script ''XB''))))
        = [Oob_called 9, Captured ''B'' ''B'']"
    using oob_needs_whole_candidate[OF reg pre,
        where at="?a2" and w="script ''XB''" and c="CHR ''X''" and rest="[Some (CHR ''B'')]"
          and offset=4 and in_prev="CHR ''+''" and j=2 and dummy=0
          and dummy_pos="replicate 20 0" and ?j1.0=3 and ?dummy1.0=0
          and ?dummy_pos1.0="replicate 20 0" and ?buf1.0="?b1" and P="''+X''"
          and sscanf_n=sscanf_literal and cbs=quiet_handlers and response="''B''" and i=1
          and whole_line_wanted=False and aborted=False,
        THEN conjunct2, THEN conjunct2, THEN conjunct1]
      acc2 rx2 c1
    by (simp add: run_defs two_prefixes_def)
  have v: "fst (ATCmdParser_vrecv sscanf_literal quiet_handlers plus_x_parser
            (script (''a+X'' @ [LF] @ ''B'')) ''B'') = Success"
    "trace (snd (snd (ATCmdParser_vrecv sscanf_literal quiet_handlers plus_x_parser
            (script (''a+X'' @ [LF] @ ''B'')) ''B''))) = [Captured ''B'' ''B'']"
    by (simp_all add: run_defs)
  have rxp: "rx (script ''X'') = Some (CHR ''X'') # []" by (simp add: script_def bytes_def)
  have p2: "fst (ATCmdParser_process_oob quiet_handlers (idle_parser\<lparr>oobs := two_prefixes\<rparr>)
              (script ''a+X'')) = Inr True"
    "trace (snd (snd (ATCmdParser_process_oob quiet_handlers (idle_parser\<lparr>oobs := two_prefixes\<rparr>)
              (script ''a+X'')))) = [Oob_called 9]"
    by (simp_all add: ATCmdParser_process_oob_def process_loop.simps process_step_def
        delimiter_seen_def run_defs two_prefixes_def)
  have d: "process_loop quiet_handlers 2 ?at (script ''X'')
      = (Inr True, ?at\<lparr>buffer := p1\<rparr>,
         \<lparr>rx = [], readable = True, trace = [Oob_called 9]\<rparr>)"
    using oob_needs_whole_candidate[OF reg pre,
        where atp="?at" and wp="script ''X''" and c="CHR ''X''" and restp="[]" and n=2
          and ?n1.0=3 and ?pbuf1.0=p1 and P="''+X''" and cbs=quiet_handlers,
        THEN conjunct2, THEN conjunct2, THEN conjunct2]
      app rxp c2
    by (simp add: two_prefixes_def quiet_handlers_def script_def bytes_def idle_parser_def)
  have d': "\<exists>b. process_loop quiet_handlers 2 ?at (script ''X'')
      = (Inr True, ?at\<lparr>buffer := b\<rparr>,
         \<lparr>rx = [], readable = True, trace = [Oob_called 9]\<rparr>)"
    using d by (intro exI[of _ p1])
  have first: "recv_step sscanf_literal two_prefixes ''B'' 1 4 False 2 0 (replicate 20 0)
        (CHR ''+'') (CHR ''X'') ?b = Oob_detected ?e ?b1
      \<and> (\<exists>b. process_step ?at 2 (CHR ''X'') = Poll_oob ?e b)
      \<and> ''a+X'' \<noteq> ''+X''"
    using st ps n1 n2 by auto
  show ?thesis using first k po l1 l2 v p2 d' by blast
qed

end
